theory Spec2Isabelle
  imports Complex_Main
begin

section \<open>Configuration constants of weight.py\<close>

definition MAX_RECONNECT_ATTEMPTS :: nat where
  "MAX_RECONNECT_ATTEMPTS = 5"

definition WEIGHT_VALIDATION_THRESHOLD :: real where
  "WEIGHT_VALIDATION_THRESHOLD = 1 / 2"

definition MAX_VALIDATION_RETRIES :: nat where
  "MAX_VALIDATION_RETRIES = 10"

text \<open>The default \<^verbatim>\<open>max_attempts=5\<close> of \<^verbatim>\<open>Scale.read_weight\<close>; no caller overrides it.\<close>

definition READ_MAX_ATTEMPTS :: nat where
  "READ_MAX_ATTEMPTS = 5"

section \<open>The str methods used on a line\<close>

text \<open>
  A line is the text obtained from \<^verbatim>\<open>readline().decode('utf-8', errors='ignore')\<close>; it is
  modelled as a \<open>string\<close> whose characters are code points below 256. \<open>is_space\<close> is
  Python's \<^verbatim>\<open>str.isspace\<close> on that range, which is what \<^verbatim>\<open>str.strip()\<close> removes.
\<close>

definition is_space :: "char \<Rightarrow> bool" where
  "is_space c = ((of_char c :: nat) \<in> {9, 10, 11, 12, 13, 28, 29, 30, 31, 32, 133, 160})"

definition strip :: "string \<Rightarrow> string" where
  "strip s = rev (dropWhile is_space (rev (dropWhile is_space s)))"

fun startswith :: "string \<Rightarrow> string \<Rightarrow> bool" where
  "startswith s [] = True"
| "startswith [] (p # ps) = False"
| "startswith (c # cs) (p # ps) = (c = p \<and> startswith cs ps)"

text \<open>\<open>contains sub s\<close> is Python's \<^verbatim>\<open>sub in s\<close>.\<close>

fun contains :: "string \<Rightarrow> string \<Rightarrow> bool" where
  "contains sub [] = (sub = [])"
| "contains sub (c # cs) = (startswith (c # cs) sub \<or> contains sub cs)"

text \<open>\<open>split sep s\<close> is \<^verbatim>\<open>s.split(sep)\<close> for a one-character separator: never empty.\<close>

fun split :: "char \<Rightarrow> string \<Rightarrow> string list" where
  "split sep [] = [[]]"
| "split sep (c # cs) =
     (if c = sep then [] # split sep cs
      else (case split sep cs of [] \<Rightarrow> [[c]] | f # fs \<Rightarrow> (c # f) # fs))"

text \<open>
  \<open>replace_with_empty old s\<close> is \<^verbatim>\<open>s.replace(old, "")\<close> for a non-empty \<open>old\<close>: every
  non-overlapping occurrence, scanning from the left, is deleted; the result is not rescanned.
\<close>

function replace_with_empty :: "string \<Rightarrow> string \<Rightarrow> string" where
  "replace_with_empty old [] = []"
| "replace_with_empty old (c # cs) =
     (if old \<noteq> [] \<and> startswith (c # cs) old
      then replace_with_empty old (drop (length old) (c # cs))
      else c # replace_with_empty old cs)"
  by pat_completeness auto
termination
  by (relation "measure (\<lambda>(old, s). length s)") (auto simp: neq_Nil_conv)

text \<open>
  Line 116 of weight.py:
  \<^verbatim>\<open>weight_str = line.split(",")[-1].replace("kg", "").replace("+", "").strip()\<close>
\<close>

definition weight_str :: "string \<Rightarrow> string" where
  "weight_str line =
     strip (replace_with_empty ''+'' (replace_with_empty ''kg'' (last (split CHR '','' line))))"

text \<open>
  Lines 115 to 117: what one line gives. \<open>pyfloat\<close> stands for the builtin \<^verbatim>\<open>float()\<close>:
  \<open>None\<close> is its ValueError. A weight is the real number the float stands for; \<^verbatim>\<open>inf\<close>
  and \<^verbatim>\<open>nan\<close> are outside the model. Without the unit marker nothing is returned and nothing
  is raised.
\<close>

datatype decoded = NoUnit | ValueError | Weight real

definition decode_line :: "(string \<Rightarrow> real option) \<Rightarrow> string \<Rightarrow> decoded" where
  "decode_line pyfloat line =
     (if contains ''kg'' line
      then (case pyfloat (weight_str line) of None \<Rightarrow> ValueError | Some w \<Rightarrow> Weight w)
      else NoUnit)"

subsection \<open>An instance of float() for plain decimal literals\<close>

text \<open>
  The decimal value of the literals the scale protocol sends, as \<^verbatim>\<open>float()\<close> reads them:
  surrounding whitespace, an optional sign, digits with an optional decimal point, at least
  one digit. Exponents, underscores, \<^verbatim>\<open>inf\<close> and \<^verbatim>\<open>nan\<close> are outside this instance; the
  general results below hold for any \<open>pyfloat\<close>. \<open>float_decimal\<close> gives the decimal value
  itself, \<open>float_binary64\<close> (below) the double \<^verbatim>\<open>float()\<close> returns for it.
\<close>

definition is_digit :: "char \<Rightarrow> bool" where
  "is_digit c = (48 \<le> (of_char c :: nat) \<and> (of_char c :: nat) \<le> 57)"

definition digits_value :: "string \<Rightarrow> nat" where
  "digits_value ds = foldl (\<lambda>a c. 10 * a + (of_char c - 48)) 0 ds"

definition unsigned_decimal :: "string \<Rightarrow> real option" where
  "unsigned_decimal s =
     (let ip = takeWhile is_digit s; rest = dropWhile is_digit s in
      if rest = [] then (if ip = [] then None else Some (real (digits_value ip)))
      else if hd rest = CHR ''.'' \<and> list_all is_digit (tl rest) \<and> (ip \<noteq> [] \<or> tl rest \<noteq> [])
      then Some (real (digits_value ip) + real (digits_value (tl rest)) / 10 ^ length (tl rest))
      else None)"

definition float_decimal :: "string \<Rightarrow> real option" where
  "float_decimal s =
     (let t = strip s in
      if t \<noteq> [] \<and> hd t = CHR ''-'' then map_option uminus (unsigned_decimal (tl t))
      else if t \<noteq> [] \<and> hd t = CHR ''+'' then unsigned_decimal (tl t)
      else unsigned_decimal t)"

subsection \<open>Double precision\<close>

text \<open>
  A Python float is an IEEE 754 binary64 number; here it is the real number it stands for.
  \<open>to_double x\<close> is \<open>x\<close> rounded to the nearest number with a 53-bit significand, ties to
  the even significand: \<open>floor_log2 a\<close> is the exponent \<open>e\<close> with \<open>2 ^ e \<le> a < 2 ^ (e + 1)\<close>,
  \<open>ulp_of a\<close> the spacing \<open>2 ^ (e - 52)\<close> of the doubles there. The exponent range is not
  bounded (no subnormal numbers, no overflow to infinity), which changes no comparison with
  0.5. \<open>double_sub\<close> is the subtraction of two floats, \<open>float_binary64\<close> is \<^verbatim>\<open>float()\<close> on a
  plain decimal literal: its decimal value, correctly rounded.
\<close>

fun bit_length :: "nat \<Rightarrow> nat" where
  "bit_length n = (if n = 0 then 0 else Suc (bit_length (n div 2)))"

declare bit_length.simps [simp del]

definition floor_log2 :: "real \<Rightarrow> int" where
  "floor_log2 a =
     (if 1 \<le> a then int (bit_length (nat \<lfloor>a\<rfloor>)) - 1
      else - int (bit_length (nat \<lceil>1 / a\<rceil> - 1)))"

definition round_half_even :: "real \<Rightarrow> int" where
  "round_half_even q =
     (let f = \<lfloor>q\<rfloor>; r = q - of_int f in
      if r < 1 / 2 then f
      else if 1 / 2 < r then f + 1
      else if even f then f else f + 1)"

definition ulp_of :: "real \<Rightarrow> real" where
  "ulp_of a =
     (let e = floor_log2 a in
      if 52 \<le> e then 2 ^ nat (e - 52) else 1 / 2 ^ nat (52 - e))"

definition to_double :: "real \<Rightarrow> real" where
  "to_double x =
     (if x = 0 then 0
      else sgn x * of_int (round_half_even (\<bar>x\<bar> / ulp_of \<bar>x\<bar>)) * ulp_of \<bar>x\<bar>)"

definition double_sub :: "real \<Rightarrow> real \<Rightarrow> real" where
  "double_sub a b = to_double (a - b)"

definition float_binary64 :: "string \<Rightarrow> real option" where
  "float_binary64 s = map_option to_double (float_decimal s)"

subsection \<open>The decoder as the specification words it\<close>

text \<open>
  For comparison with \<open>weight_str\<close>: the specification's Line Decoder takes the last
  comma-delimited field, strips the unit suffix and a leading plus sign, and trims whitespace.
\<close>

definition endswith :: "string \<Rightarrow> string \<Rightarrow> bool" where
  "endswith s suffix = startswith (rev s) (rev suffix)"

definition spec_weight_str :: "string \<Rightarrow> string" where
  "spec_weight_str line =
     (let f = last (split CHR '','' line);
          f1 = (if endswith f ''kg'' then take (length f - 2) f else f);
          f2 = (if f1 \<noteq> [] \<and> hd f1 = CHR ''+'' then tl f1 else f1)
      in strip f2)"

section \<open>The serial device and the Scale object\<close>

text \<open>
  The outside world of one port is a script: what the n-th connection attempt meets
  (\<^verbatim>\<open>os.path.exists\<close> false, \<^verbatim>\<open>serial.Serial\<close> raising, or a handle) and what the n-th
  read meets (\<^verbatim>\<open>reset_input_buffer\<close> or \<^verbatim>\<open>readline\<close> raising, or the decoded text of the
  line, empty on a timeout). \<open>conn_pos\<close> and \<open>read_pos\<close> count the events consumed.
  Logging and \<^verbatim>\<open>time.sleep\<close> change nothing that is modelled.
\<close>

datatype conn_event = NoDevice | OpenError | Opened

datatype read_event = ReadError | Line string

record serial_port =
  hid :: nat
  is_open :: bool

record device =
  conn_events :: "nat \<Rightarrow> conn_event"
  conn_pos :: nat
  read_events :: "nat \<Rightarrow> read_event"
  read_pos :: nat

record scale =
  port :: string
  serial :: "serial_port option"
  failed :: bool
  last_valid_weight :: "real option"
  dev :: device

definition next_conn_event :: "scale \<Rightarrow> conn_event \<times> scale" where
  "next_conn_event s =
     (conn_events (dev s) (conn_pos (dev s)),
      s\<lparr>dev := (dev s)\<lparr>conn_pos := Suc (conn_pos (dev s))\<rparr>\<rparr>)"

definition next_read_event :: "scale \<Rightarrow> read_event \<times> scale" where
  "next_read_event s =
     (read_events (dev s) (read_pos (dev s)),
      s\<lparr>dev := (dev s)\<lparr>read_pos := Suc (read_pos (dev s))\<rparr>\<rparr>)"

text \<open>\<^verbatim>\<open>Scale.connect\<close>: the handle opened by the n-th connection event has \<open>hid = n\<close>.\<close>

fun connect_loop :: "nat \<Rightarrow> scale \<Rightarrow> scale" where
  "connect_loop 0 s = s\<lparr>serial := None, failed := True\<rparr>"
| "connect_loop (Suc n) s =
     (case next_conn_event s of
        (NoDevice, s') \<Rightarrow> connect_loop n s'
      | (OpenError, s') \<Rightarrow> connect_loop n s'
      | (Opened, s') \<Rightarrow>
          s'\<lparr>serial := Some \<lparr>hid = conn_pos (dev s), is_open = True\<rparr>, failed := False\<rparr>)"

definition connect :: "scale \<Rightarrow> scale" where
  "connect s = connect_loop MAX_RECONNECT_ATTEMPTS s"

text \<open>
  \<^verbatim>\<open>Scale.read_weight\<close>: \<open>read_loop pyfloat n\<close> is the loop with \<open>n\<close> attempts left. The
  \<^verbatim>\<open>except Exception\<close> clause is the two branches that call \<open>connect\<close>.
\<close>

fun read_loop :: "(string \<Rightarrow> real option) \<Rightarrow> nat \<Rightarrow> scale \<Rightarrow> real option \<times> scale" where
  "read_loop pyfloat 0 s = (None, s)"
| "read_loop pyfloat (Suc n) s =
     (let not_open = (case serial s of None \<Rightarrow> True | Some h \<Rightarrow> \<not> is_open h);
          s1 = (if not_open then connect s else s)
      in if not_open \<and> serial s1 = None then read_loop pyfloat n s1
         else (case next_read_event s1 of
                 (ReadError, s2) \<Rightarrow> read_loop pyfloat n (connect s2)
               | (Line raw, s2) \<Rightarrow>
                   (case decode_line pyfloat (strip raw) of
                      Weight w \<Rightarrow> (Some w, s2)
                    | NoUnit \<Rightarrow> read_loop pyfloat n s2
                    | ValueError \<Rightarrow> read_loop pyfloat n (connect s2))))"

definition read_weight :: "(string \<Rightarrow> real option) \<Rightarrow> scale \<Rightarrow> real option \<times> scale" where
  "read_weight pyfloat s = read_loop pyfloat READ_MAX_ATTEMPTS s"

text \<open>
  Lines 107 to 109 on their own: the Scale with which an attempt goes on after making sure
  of the connection. The attempt reads a line exactly when this leaves a handle.
\<close>

definition ensure_connected :: "scale \<Rightarrow> scale" where
  "ensure_connected s =
     (if (case serial s of None \<Rightarrow> True | Some h \<Rightarrow> \<not> is_open h) then connect s else s)"

text \<open>
  \<^verbatim>\<open>Scale.get_validated_weight\<close>. In the retry loop \<open>l\<close> is \<^verbatim>\<open>self.last_valid_weight\<close>,
  which is not None there and which \<open>read_weight\<close> never assigns. The test is that of
  line 144 on line 143's \<^verbatim>\<open>abs(weight - self.last_valid_weight)\<close>: the difference is the
  rounded one, \<^verbatim>\<open>abs\<close> and the comparison with 0.5 are exact.
\<close>

fun validate_loop ::
  "(string \<Rightarrow> real option) \<Rightarrow> nat \<Rightarrow> real \<Rightarrow> scale \<Rightarrow> real option \<times> scale" where
  "validate_loop pyfloat 0 l s = (Some l, s)"
| "validate_loop pyfloat (Suc n) l s =
     (case read_weight pyfloat s of
        (None, s1) \<Rightarrow> validate_loop pyfloat n l s1
      | (Some w, s1) \<Rightarrow>
          (if \<bar>double_sub w l\<bar> \<le> WEIGHT_VALIDATION_THRESHOLD
           then (Some w, s1\<lparr>last_valid_weight := Some w\<rparr>)
           else validate_loop pyfloat n l s1))"

definition get_validated_weight ::
  "(string \<Rightarrow> real option) \<Rightarrow> scale \<Rightarrow> real option \<times> scale" where
  "get_validated_weight pyfloat s =
     (case last_valid_weight s of
        None \<Rightarrow>
          (case read_weight pyfloat s of
             (None, s1) \<Rightarrow> (None, s1)
           | (Some w, s1) \<Rightarrow> (Some w, s1\<lparr>last_valid_weight := Some w\<rparr>))
      | Some l \<Rightarrow> validate_loop pyfloat MAX_VALIDATION_RETRIES l s)"

text \<open>\<^verbatim>\<open>Scale.__init__\<close>: the fields, then \<open>connect\<close>.\<close>

definition new_scale :: "string \<Rightarrow> device \<Rightarrow> scale" where
  "new_scale p d =
     connect \<lparr>port = p, serial = None, failed = False, last_valid_weight = None, dev = d\<rparr>"

text \<open>
  Observation of the validated read: \<open>after_reads pyfloat k s\<close> is the Scale after \<open>k\<close>
  successive calls of \<open>read_weight\<close>, \<open>raw_read pyfloat j s\<close> what call number \<open>j\<close>
  (from 0) returns.
  \<open>acceptable l r\<close> is the test of lines 138 to 144 on one raw result.
\<close>

fun after_reads :: "(string \<Rightarrow> real option) \<Rightarrow> nat \<Rightarrow> scale \<Rightarrow> scale" where
  "after_reads pyfloat 0 s = s"
| "after_reads pyfloat (Suc k) s = after_reads pyfloat k (snd (read_weight pyfloat s))"

definition raw_read :: "(string \<Rightarrow> real option) \<Rightarrow> nat \<Rightarrow> scale \<Rightarrow> real option" where
  "raw_read pyfloat j s = fst (read_weight pyfloat (after_reads pyfloat j s))"

definition acceptable :: "real \<Rightarrow> real option \<Rightarrow> bool" where
  "acceptable l r =
     (case r of
        None \<Rightarrow> False
      | Some w \<Rightarrow> \<bar>double_sub w l\<bar> \<le> WEIGHT_VALIDATION_THRESHOLD)"

text \<open>
  \<open>no_weight pyfloat ev\<close>: the read event \<open>ev\<close> gives no value to return, because the
  read raises, the line lacks the unit marker, or \<^verbatim>\<open>float()\<close> rejects the field.
\<close>

definition no_weight :: "(string \<Rightarrow> real option) \<Rightarrow> read_event \<Rightarrow> bool" where
  "no_weight pyfloat ev =
     (case ev of
        ReadError \<Rightarrow> True
      | Line raw \<Rightarrow> \<not> contains ''kg'' (strip raw) \<or> pyfloat (weight_str (strip raw)) = None)"

subsection \<open>Concrete devices\<close>

text \<open>
  \<open>scripted_device conns reads\<close> follows the two scripts and then has no device node and
  only timeouts; \<open>steady_device ev\<close> always opens and always answers \<open>ev\<close>;
  \<open>talking_device reads\<close> always opens and follows the script of reads, then only timeouts.
\<close>

definition scripted_device :: "conn_event list \<Rightarrow> read_event list \<Rightarrow> device" where
  "scripted_device conns reads =
     \<lparr>conn_events = (\<lambda>n. if n < length conns then conns ! n else NoDevice), conn_pos = 0,
      read_events = (\<lambda>n. if n < length reads then reads ! n else Line []), read_pos = 0\<rparr>"

definition steady_device :: "read_event \<Rightarrow> device" where
  "steady_device ev =
     \<lparr>conn_events = (\<lambda>n. Opened), conn_pos = 0, read_events = (\<lambda>n. ev), read_pos = 0\<rparr>"

text \<open>\<open>advance_reads j s\<close>: the Scale \<open>s\<close> once \<open>j\<close> more read events are consumed.\<close>

definition advance_reads :: "nat \<Rightarrow> scale \<Rightarrow> scale" where
  "advance_reads j s = s\<lparr>dev := (dev s)\<lparr>read_pos := read_pos (dev s) + j\<rparr>\<rparr>"

definition talking_device :: "read_event list \<Rightarrow> device" where
  "talking_device reads =
     \<lparr>conn_events = (\<lambda>n. Opened), conn_pos = 0,
      read_events = (\<lambda>n. if n < length reads then reads ! n else Line []), read_pos = 0\<rparr>"

definition scale_at :: "device \<Rightarrow> scale" where
  "scale_at d = new_scale ''/dev/ttyUSB0'' d"

section \<open>Time slots\<close>

text \<open>
  A naive \<^verbatim>\<open>datetime\<close> is its count of microseconds since midnight of day 0 of the
  proleptic calendar; adding a \<^verbatim>\<open>timedelta\<close> is addition. Hours have 60 minutes and
  minutes 60 seconds, so the \<^verbatim>\<open>minute\<close> field and \<^verbatim>\<open>replace(second=0, microsecond=0)\<close>
  are arithmetic on the count. The upper limit of \<^verbatim>\<open>datetime\<close> (year 9999) is left out.
\<close>

type_synonym datetime = int

definition MICROS_PER_MINUTE :: int where
  "MICROS_PER_MINUTE = 60000000"

definition timedelta_minutes :: "int \<Rightarrow> int" where
  "timedelta_minutes m = m * MICROS_PER_MINUTE"

definition at_time :: "int \<Rightarrow> int \<Rightarrow> int \<Rightarrow> int \<Rightarrow> int \<Rightarrow> datetime" where
  "at_time day h m s us = (((day * 24 + h) * 60 + m) * 60 + s) * 1000000 + us"

definition dt_minute :: "datetime \<Rightarrow> int" where
  "dt_minute t = (t div MICROS_PER_MINUTE) mod 60"

definition replace_second_microsecond_0 :: "datetime \<Rightarrow> datetime" where
  "replace_second_microsecond_0 t = t - t mod MICROS_PER_MINUTE"

text \<open>\<^verbatim>\<open>get_next_slot\<close>, with the reading of \<^verbatim>\<open>datetime.now()\<close> as its argument.\<close>

definition get_next_slot :: "datetime \<Rightarrow> datetime" where
  "get_next_slot now =
     replace_second_microsecond_0 (now + timedelta_minutes 10)
       - timedelta_minutes (dt_minute now mod 10)"

text \<open>A slot boundary: seconds and microseconds zero, minute a multiple of 10.\<close>

definition is_slot :: "datetime \<Rightarrow> bool" where
  "is_slot t = (t mod MICROS_PER_MINUTE = 0 \<and> dt_minute t mod 10 = 0)"

section \<open>The remote store\<close>

text \<open>
  A pushed record is a dict, kept as an association list in insertion order. The keys are
  \<^verbatim>\<open>'timestamp'\<close> and \<^verbatim>\<open>f'weight{i}'\<close>; the values the timestamp (its isoformat text is
  determined by it) and a weight, which may be None. The store maps a node path to the
  records pushed under it; the n-th call of \<^verbatim>\<open>push\<close> succeeds when \<open>push_events n\<close> holds
  and raises otherwise.
\<close>

datatype key = Timestamp | WeightKey nat

datatype val = Iso datetime | Num "real option"

type_synonym data = "(key \<times> val) list"

record firebase =
  nodes :: "string \<Rightarrow> data list"
  push_events :: "nat \<Rightarrow> bool"
  push_pos :: nat

text \<open>\<open>dict_set d k v\<close> is \<^verbatim>\<open>d[k] = v\<close>: an existing key keeps its place, a new one goes last.\<close>

fun dict_set :: "data \<Rightarrow> key \<Rightarrow> val \<Rightarrow> data" where
  "dict_set [] k v = [(k, v)]"
| "dict_set ((k', v') # d) k v = (if k' = k then (k, v) # d else (k', v') # dict_set d k v)"

text \<open>
  \<^verbatim>\<open>setup_firebase_with_retry\<close>: \<open>init_ok n\<close> tells whether the n-th attempt passes the
  credential and app initialisation; after three failures the exception is re-raised (\<open>None\<close>)
  and the module stops. Both references are made from the same path.
\<close>

fun setup_loop :: "nat \<Rightarrow> nat \<Rightarrow> (nat \<Rightarrow> bool) \<Rightarrow> (string \<times> string) option" where
  "setup_loop 0 attempt init_ok = None"
| "setup_loop (Suc n) attempt init_ok =
     (if init_ok attempt then Some (''weights/12644'', ''weights/12644'')
      else setup_loop n (Suc attempt) init_ok)"

definition setup_firebase_with_retry :: "(nat \<Rightarrow> bool) \<Rightarrow> (string \<times> string) option" where
  "setup_firebase_with_retry init_ok = setup_loop 3 0 init_ok"

definition push :: "string \<Rightarrow> data \<Rightarrow> firebase \<Rightarrow> bool \<times> firebase" where
  "push ref d fb =
     (if push_events fb (push_pos fb)
      then (True, fb\<lparr>nodes := (nodes fb)(ref := nodes fb ref @ [d]), push_pos := Suc (push_pos fb)\<rparr>)
      else (False, fb\<lparr>push_pos := Suc (push_pos fb)\<rparr>))"

text \<open>Lines 180 to 182 and 188 to 191: the two dicts. \<open>data_303\<close> is built only when
  \<open>length weights > 3\<close>, so its index 2 is in range.\<close>

definition data_304 :: "datetime \<Rightarrow> real option list \<Rightarrow> data" where
  "data_304 timestamp weights =
     foldl (\<lambda>d (i, w). dict_set d (WeightKey i) (Num w)) [(Timestamp, Iso timestamp)]
       (List.enumerate 1 (take 3 weights))"

definition data_303 :: "datetime \<Rightarrow> real option list \<Rightarrow> data" where
  "data_303 timestamp weights = [(Timestamp, Iso timestamp), (WeightKey 1, Num (weights ! 2))]"

text \<open>\<^verbatim>\<open>upload_to_firebase\<close>: \<open>upload_loop n\<close> has \<open>n\<close> attempts left; a failed push starts
  the next attempt, which builds and pushes both dicts again.\<close>

fun upload_loop ::
  "nat \<Rightarrow> string \<times> string \<Rightarrow> datetime \<Rightarrow> real option list \<Rightarrow> firebase \<Rightarrow> firebase" where
  "upload_loop 0 refs timestamp weights fb = fb"
| "upload_loop (Suc n) refs timestamp weights fb =
     (case push (fst refs) (data_304 timestamp weights) fb of
        (False, fb1) \<Rightarrow> upload_loop n refs timestamp weights fb1
      | (True, fb1) \<Rightarrow>
          (if length weights > 3
           then (case push (snd refs) (data_303 timestamp weights) fb1 of
                   (False, fb2) \<Rightarrow> upload_loop n refs timestamp weights fb2
                 | (True, fb2) \<Rightarrow> fb2)
           else fb1))"

definition upload_to_firebase ::
  "string \<times> string \<Rightarrow> datetime \<Rightarrow> real option list \<Rightarrow> firebase \<Rightarrow> firebase" where
  "upload_to_firebase refs timestamp weights fb = upload_loop 3 refs timestamp weights fb"

text \<open>An empty store on which every push succeeds.\<close>

definition open_store :: firebase where
  "open_store = \<lparr>nodes = (\<lambda>p. []), push_events = (\<lambda>n. True), push_pos = 0\<rparr>"

section \<open>The local CSV file\<close>

text \<open>
  \<^verbatim>\<open>save_to_csv\<close>: the file is its rows, \<open>None\<close> while it does not exist. \<open>ok\<close> tells
  whether opening and writing succeed; a failure is logged and nothing is written.
\<close>

datatype csv_row = HeaderRow "key list" | DataRow datetime "real option list"

definition save_to_csv ::
  "datetime \<Rightarrow> real option list \<Rightarrow> bool \<Rightarrow> csv_row list option \<Rightarrow> csv_row list option" where
  "save_to_csv timestamp weights ok file =
     (if \<not> ok then file
      else (case file of
              None \<Rightarrow>
                Some [HeaderRow (Timestamp # map (\<lambda>i. WeightKey (i + 1)) [0..<length weights]),
                      DataRow timestamp weights]
            | Some rows \<Rightarrow> Some (rows @ [DataRow timestamp weights])))"

section \<open>The main loop\<close>

text \<open>
  The state of \<^verbatim>\<open>main\<close>: the Scale objects, \<^verbatim>\<open>last_weights\<close>, the two sinks, the number of
  times the reboot command was run, and \<open>handed\<close>, the records \<open>(t, weights)\<close> passed to
  \<^verbatim>\<open>save_to_csv\<close> and \<^verbatim>\<open>upload_to_firebase\<close> so far, oldest first. \<^verbatim>\<open>subprocess.run\<close>
  returns, and the loop goes on to its next tick.
\<close>

record main_state =
  scales :: "scale list"
  last_weights :: "real option list"
  csv_file :: "csv_row list option"
  store :: firebase
  refs :: "string \<times> string"
  reboots :: nat
  handed :: "(datetime \<times> real option list) list"

text \<open>What one tick reads from outside: the clock after the sleep, and the fate of the CSV write.\<close>

record tick_env =
  tick_now :: datetime
  csv_ok :: bool

definition SCALE_PORTS :: "string list" where
  "SCALE_PORTS = [''/dev/ttyUSB0'']"

text \<open>Lines 242 to 249, the body of the loop over the scales, for the scale at index \<open>i\<close>.\<close>

definition poll_scale ::
  "(string \<Rightarrow> real option) \<Rightarrow> nat \<Rightarrow> scale \<Rightarrow> real option list \<Rightarrow> real option list
     \<Rightarrow> scale \<times> real option list \<times> real option list" where
  "poll_scale pyfloat i sc lws weights =
     (case get_validated_weight pyfloat sc of
        (Some w, sc') \<Rightarrow> (sc', lws[i := Some w], weights @ [Some w])
      | (None, sc') \<Rightarrow> (sc'\<lparr>failed := True\<rparr>, lws, weights @ [lws ! i]))"

fun poll_scales ::
  "(string \<Rightarrow> real option) \<Rightarrow> nat \<Rightarrow> scale list \<Rightarrow> real option list \<Rightarrow> real option list
     \<Rightarrow> scale list \<times> real option list \<times> real option list" where
  "poll_scales pyfloat i [] lws weights = ([], lws, weights)"
| "poll_scales pyfloat i (sc # rest) lws weights =
     (case poll_scale pyfloat i sc lws weights of
        (sc', lws', weights') \<Rightarrow>
          (case poll_scales pyfloat (Suc i) rest lws' weights' of
             (rest', lws'', weights'') \<Rightarrow> (sc' # rest', lws'', weights'')))"

definition tick :: "(string \<Rightarrow> real option) \<Rightarrow> tick_env \<Rightarrow> main_state \<Rightarrow> main_state" where
  "tick pyfloat env st =
     (let t = replace_second_microsecond_0 (tick_now env) in
      case poll_scales pyfloat 0 (scales st) (last_weights st) [] of
        (scs, lws, weights) \<Rightarrow>
          st\<lparr>scales := scs,
             last_weights := lws,
             csv_file := save_to_csv t weights (csv_ok env) (csv_file st),
             store := upload_to_firebase (refs st) t weights (store st),
             reboots := (if list_ex failed scs then Suc (reboots st) else reboots st),
             handed := handed st @ [(t, weights)]\<rparr>)"

text \<open>\<^verbatim>\<open>while True\<close>: one tick for each entry of the list, which is any finite prefix of the run.\<close>

fun main_loop :: "(string \<Rightarrow> real option) \<Rightarrow> tick_env list \<Rightarrow> main_state \<Rightarrow> main_state" where
  "main_loop pyfloat [] st = st"
| "main_loop pyfloat (env # envs) st = main_loop pyfloat envs (tick pyfloat env st)"

text \<open>The state before the first tick: \<open>world p\<close> is the device behind port \<open>p\<close>.\<close>

definition main_init ::
  "string list \<Rightarrow> (string \<Rightarrow> device) \<Rightarrow> string \<times> string \<Rightarrow> firebase \<Rightarrow> main_state" where
  "main_init ports world rs fb =
     \<lparr>scales = map (\<lambda>p. new_scale p (world p)) ports,
      last_weights = replicate (length ports) None,
      csv_file = None,
      store = fb,
      refs = rs,
      reboots = 0,
      handed = []\<rparr>"

text \<open>A world in which every port leads to the same kind of device.\<close>

definition every_port :: "device \<Rightarrow> string \<Rightarrow> device" where
  "every_port d p = d"

section \<open>Results\<close>

subsection \<open>Unfolding the model on concrete inputs\<close>

lemma READ_MAX_ATTEMPTS_Suc: "READ_MAX_ATTEMPTS = Suc (Suc (Suc (Suc (Suc 0))))"
  by (simp add: READ_MAX_ATTEMPTS_def eval_nat_numeral)

lemma MAX_RECONNECT_ATTEMPTS_Suc: "MAX_RECONNECT_ATTEMPTS = Suc (Suc (Suc (Suc (Suc 0))))"
  by (simp add: MAX_RECONNECT_ATTEMPTS_def eval_nat_numeral)

lemmas eval_defs =
  read_weight_def READ_MAX_ATTEMPTS_Suc new_scale_def connect_def MAX_RECONNECT_ATTEMPTS_Suc
  next_conn_event_def next_read_event_def decode_line_def weight_str_def
  float_decimal_def unsigned_decimal_def strip_def is_space_def is_digit_def digits_value_def
  scripted_device_def steady_device_def talking_device_def scale_at_def

lemmas double_defs =
  float_binary64_def double_sub_def to_double_def ulp_of_def round_half_even_def floor_log2_def
  bit_length.simps Let_def

subsection \<open>What connect and the raw read leave alone\<close>

lemma connect_loop_frame:
  "last_valid_weight (connect_loop n s) = last_valid_weight s \<and>
   port (connect_loop n s) = port s \<and>
   read_events (dev (connect_loop n s)) = read_events (dev s) \<and>
   read_pos (dev (connect_loop n s)) = read_pos (dev s) \<and>
   conn_events (dev (connect_loop n s)) = conn_events (dev s)"
  by (induction n arbitrary: s) (auto simp: next_conn_event_def split: conn_event.splits)

lemma connect_frame:
  "last_valid_weight (connect s) = last_valid_weight s"
  "port (connect s) = port s"
  "read_events (dev (connect s)) = read_events (dev s)"
  "read_pos (dev (connect s)) = read_pos (dev s)"
  "conn_events (dev (connect s)) = conn_events (dev s)"
  by (simp_all add: connect_def connect_loop_frame)

lemma read_loop_baseline:
  "last_valid_weight (snd (read_loop pyfloat n s)) = last_valid_weight s"
proof (induction n arbitrary: s)
  case 0
  show ?case by simp
next
  case (Suc n)
  show ?case
    by (auto simp: Let_def Suc connect_frame next_read_event_def
        split: prod.splits read_event.splits decoded.splits option.splits)
qed

lemma read_loop_port:
  "port (snd (read_loop pyfloat n s)) = port s"
proof (induction n arbitrary: s)
  case 0
  show ?case by simp
next
  case (Suc n)
  show ?case
    by (auto simp: Let_def Suc connect_frame next_read_event_def
        split: prod.splits read_event.splits decoded.splits option.splits)
qed

lemma read_weight_baseline:
  "last_valid_weight (snd (read_weight pyfloat s)) = last_valid_weight s"
  by (simp add: read_weight_def read_loop_baseline)

lemma read_weight_port:
  "port (snd (read_weight pyfloat s)) = port s"
  by (simp add: read_weight_def read_loop_port)

lemma after_reads_baseline:
  "last_valid_weight (after_reads pyfloat k s) = last_valid_weight s"
  by (induction k arbitrary: s) (simp_all add: read_weight_baseline)

subsection \<open>The raw read on one line\<close>

lemma read_loop_no_weight:
  "(\<And>k. read_pos (dev s) \<le> k \<Longrightarrow> no_weight pyfloat (read_events (dev s) k))
   \<Longrightarrow> fst (read_loop pyfloat n s) = None"
proof (induction n arbitrary: s)
  case 0
  show ?case by simp
next
  case (Suc n)
  have here: "no_weight pyfloat (read_events (dev s) (read_pos (dev s)))"
    using Suc.prems by simp
  have later: "\<And>s'. read_events (dev s') = read_events (dev s) \<Longrightarrow>
      read_pos (dev s) \<le> read_pos (dev s') \<Longrightarrow> fst (read_loop pyfloat n s') = None"
    using Suc.IH Suc.prems by (metis order_trans)
  show ?case
    using here
    by (auto simp: Let_def later connect_frame next_read_event_def no_weight_def decode_line_def
        split: prod.splits read_event.splits decoded.splits option.splits)
qed

lemma read_loop_first_line:
  assumes "serial s = Some h" and "is_open h"
    and "read_events (dev s) (read_pos (dev s)) = Line raw"
  shows "read_loop pyfloat (Suc n) s =
     (case decode_line pyfloat (strip raw) of
        Weight w \<Rightarrow> (Some w, snd (next_read_event s))
      | NoUnit \<Rightarrow> read_loop pyfloat n (snd (next_read_event s))
      | ValueError \<Rightarrow> read_loop pyfloat n (connect (snd (next_read_event s))))"
  using assms by (simp add: next_read_event_def split: decoded.splits)

lemma connect_opens:
  "conn_events (dev s) (conn_pos (dev s)) = Opened \<Longrightarrow>
   connect s = s\<lparr>serial := Some \<lparr>hid = conn_pos (dev s), is_open = True\<rparr>, failed := False,
                 dev := (dev s)\<lparr>conn_pos := Suc (conn_pos (dev s))\<rparr>\<rparr>"
  by (simp add: connect_def MAX_RECONNECT_ATTEMPTS_Suc next_conn_event_def)

lemma connect_loop_conn_pos:
  "conn_pos (dev s) \<le> conn_pos (dev (connect_loop n s)) \<and>
   (0 < n \<longrightarrow> conn_pos (dev s) < conn_pos (dev (connect_loop n s)))"
proof (induction n arbitrary: s)
  case 0
  show ?case by simp
next
  case (Suc n)
  have "Suc (conn_pos (dev s)) \<le> conn_pos (dev (connect_loop n (snd (next_conn_event s))))"
    using Suc [of "snd (next_conn_event s)"] by (simp add: next_conn_event_def)
  then show ?case
    by (auto simp: next_conn_event_def split: conn_event.splits)
qed

lemma connect_conn_pos: "conn_pos (dev s) < conn_pos (dev (connect s))"
  using connect_loop_conn_pos [of s MAX_RECONNECT_ATTEMPTS]
  by (simp add: connect_def MAX_RECONNECT_ATTEMPTS_def)

lemma connect_loop_never_opened:
  "(\<And>i. i < n \<Longrightarrow> conn_events (dev s) (conn_pos (dev s) + i) \<noteq> Opened) \<Longrightarrow>
   serial (connect_loop n s) = None \<and> failed (connect_loop n s)"
proof (induction n arbitrary: s)
  case 0
  show ?case by simp
next
  case (Suc n)
  have here: "conn_events (dev s) (conn_pos (dev s)) \<noteq> Opened"
    using Suc.prems [of 0] by simp
  have "\<And>i. i < n \<Longrightarrow> conn_events (dev (snd (next_conn_event s)))
            (conn_pos (dev (snd (next_conn_event s))) + i) \<noteq> Opened"
    using Suc.prems [of "Suc _"] by (simp add: next_conn_event_def)
  from Suc.IH [OF this] show ?case
    using here by (auto simp: next_conn_event_def split: conn_event.splits)
qed

lemma read_loop_attempt:
  assumes "serial (ensure_connected s) = Some h"
    and "read_events (dev s) (read_pos (dev s)) = Line raw"
  shows "read_loop pyfloat (Suc n) s =
     (case decode_line pyfloat (strip raw) of
        Weight w \<Rightarrow> (Some w, snd (next_read_event (ensure_connected s)))
      | NoUnit \<Rightarrow> read_loop pyfloat n (snd (next_read_event (ensure_connected s)))
      | ValueError \<Rightarrow> read_loop pyfloat n (connect (snd (next_read_event (ensure_connected s)))))"
  using assms
  by (auto simp: ensure_connected_def Let_def next_read_event_def connect_frame
      split: decoded.splits option.splits if_splits)

lemma read_loop_attempt_error:
  assumes "serial (ensure_connected s) = Some h"
    and "read_events (dev s) (read_pos (dev s)) = ReadError"
  shows "read_loop pyfloat (Suc n) s =
           read_loop pyfloat n (connect (snd (next_read_event (ensure_connected s))))"
  using assms
  by (auto simp: ensure_connected_def Let_def next_read_event_def connect_frame
      split: option.splits if_splits)

lemma read_loop_skip_no_unit:
  assumes "serial s = Some h" and "is_open h"
    and "\<forall>i<j. \<exists>r. read_events (dev s) (read_pos (dev s) + i) = Line r \<and> \<not> contains ''kg'' (strip r)"
  shows "read_loop pyfloat (j + n) s = read_loop pyfloat n (advance_reads j s)"
  using assms
proof (induction j arbitrary: s)
  case 0
  show ?case by (simp add: advance_reads_def)
next
  case (Suc j)
  obtain r where r: "read_events (dev s) (read_pos (dev s)) = Line r" "\<not> contains ''kg'' (strip r)"
    using Suc.prems(3) by force
  have e: "ensure_connected s = s"
    using Suc.prems(1,2) by (simp add: ensure_connected_def)
  have step: "read_loop pyfloat (Suc (j + n)) s = read_loop pyfloat (j + n) (advance_reads 1 s)"
    using read_loop_attempt [of s h r pyfloat "j + n"] Suc.prems(1) r
    by (simp add: e decode_line_def next_read_event_def advance_reads_def)
  have "\<forall>i<j. \<exists>r. read_events (dev (advance_reads 1 s)) (read_pos (dev (advance_reads 1 s)) + i) = Line r
            \<and> \<not> contains ''kg'' (strip r)"
    using Suc.prems(3) by (auto simp: advance_reads_def dest: spec [where x = "Suc _"])
  then have "read_loop pyfloat (j + n) (advance_reads 1 s) =
        read_loop pyfloat n (advance_reads j (advance_reads 1 s))"
    using Suc.prems(1,2) by (intro Suc.IH) (simp_all add: advance_reads_def)
  moreover have "advance_reads j (advance_reads 1 s) = advance_reads (Suc j) s"
    by (simp add: advance_reads_def)
  moreover have "read_loop pyfloat (Suc j + n) s = read_loop pyfloat (Suc (j + n)) s"
    by (simp only: add_Suc)
  ultimately show ?case
    using step by (simp only:)
qed

lemma read_loop_after_noise:
  assumes "\<forall>k. conn_events (dev s) k = Opened"
    and "\<forall>i<j. no_weight pyfloat (read_events (dev s) (read_pos (dev s) + i))"
    and "read_events (dev s) (read_pos (dev s) + j) = Line raw"
    and "contains ''kg'' (strip raw)" and "pyfloat (weight_str (strip raw)) = Some w"
  shows "fst (read_loop pyfloat (j + Suc m) s) = Some w \<and>
         read_pos (dev (snd (read_loop pyfloat (j + Suc m) s))) = read_pos (dev s) + Suc j"
  using assms(1,2,3)
proof (induction j arbitrary: s)
  case 0
  have c: "\<exists>h. serial (ensure_connected s) = Some h"
    using 0(1) by (auto simp: ensure_connected_def connect_opens split: option.splits)
  then obtain h where h: "serial (ensure_connected s) = Some h" ..
  have r: "read_events (dev s) (read_pos (dev s)) = Line raw"
    using 0(3) by simp
  have p: "read_pos (dev (ensure_connected s)) = read_pos (dev s)"
    by (simp add: ensure_connected_def connect_frame)
  show ?case
    using read_loop_attempt [OF h r, of pyfloat m] assms(4,5) p
    by (simp add: decode_line_def next_read_event_def)
next
  case (Suc j)
  let ?e = "ensure_connected s"
  have c: "\<exists>h. serial ?e = Some h"
    using Suc.prems(1) by (auto simp: ensure_connected_def connect_opens split: option.splits)
  have here: "no_weight pyfloat (read_events (dev s) (read_pos (dev s)))"
    using Suc.prems(2) by force
  have fr: "read_events (dev ?e) = read_events (dev s)" "read_pos (dev ?e) = read_pos (dev s)"
    "conn_events (dev ?e) = conn_events (dev s)"
    by (simp_all add: ensure_connected_def connect_frame)
  have next_ok: "\<And>s' :: scale. conn_events (dev s') = conn_events (dev s) \<Longrightarrow>
        read_events (dev s') = read_events (dev s) \<Longrightarrow>
        read_pos (dev s') = Suc (read_pos (dev s)) \<Longrightarrow>
        fst (read_loop pyfloat (j + Suc m) s') = Some w \<and>
        read_pos (dev (snd (read_loop pyfloat (j + Suc m) s'))) = read_pos (dev s) + Suc (Suc j)"
  proof -
    fix s' :: scale
    assume a: "conn_events (dev s') = conn_events (dev s)" "read_events (dev s') = read_events (dev s)"
      "read_pos (dev s') = Suc (read_pos (dev s))"
    have 1: "\<forall>k. conn_events (dev s') k = Opened"
      using Suc.prems(1) a by simp
    have 2: "\<forall>i<j. no_weight pyfloat (read_events (dev s') (read_pos (dev s') + i))"
      using Suc.prems(2) a by (auto dest: spec [where x = "Suc _"])
    have 3: "read_events (dev s') (read_pos (dev s') + j) = Line raw"
      using Suc.prems(3) a by simp
    show "fst (read_loop pyfloat (j + Suc m) s') = Some w \<and>
        read_pos (dev (snd (read_loop pyfloat (j + Suc m) s'))) = read_pos (dev s) + Suc (Suc j)"
      using Suc.IH [OF 1 2 3] a by simp
  qed
  have s2: "conn_events (dev (snd (next_read_event ?e))) = conn_events (dev s)"
    "read_events (dev (snd (next_read_event ?e))) = read_events (dev s)"
    "read_pos (dev (snd (next_read_event ?e))) = Suc (read_pos (dev s))"
    by (simp_all add: next_read_event_def fr)
  have s3: "conn_events (dev (connect (snd (next_read_event ?e)))) = conn_events (dev s)"
    "read_events (dev (connect (snd (next_read_event ?e)))) = read_events (dev s)"
    "read_pos (dev (connect (snd (next_read_event ?e)))) = Suc (read_pos (dev s))"
    by (simp_all add: connect_frame s2)
  obtain h where h: "serial ?e = Some h" using c ..
  have step: "read_loop pyfloat (Suc (j + Suc m)) s = read_loop pyfloat (j + Suc m) (snd (next_read_event ?e))
      \<or> read_loop pyfloat (Suc (j + Suc m)) s = read_loop pyfloat (j + Suc m) (connect (snd (next_read_event ?e)))"
  proof (cases "read_events (dev s) (read_pos (dev s))")
    case ReadError
    show ?thesis
      using read_loop_attempt_error [OF h ReadError, of pyfloat "j + Suc m"] by blast
  next
    case (Line r)
    have d: "decode_line pyfloat (strip r) = NoUnit \<or> decode_line pyfloat (strip r) = ValueError"
      using here Line by (auto simp: no_weight_def decode_line_def)
    show ?thesis
      using read_loop_attempt [OF h Line, of pyfloat "j + Suc m"] d
      by (elim disjE) (simp_all only: decoded.case simp_thms)
  qed
  have "read_loop pyfloat (Suc j + Suc m) s = read_loop pyfloat (Suc (j + Suc m)) s"
    by (simp only: add_Suc)
  then show ?case
    using step next_ok [OF s2] next_ok [OF s3] by (metis add_Suc_right)
qed

text \<open>
  C2 (as amended). For every raw input line: it decodes to a weight exactly when it contains
  "kg" and \<^verbatim>\<open>float()\<close> accepts its last comma-delimited field once every occurrence of "kg"
  and every plus sign is deleted and whitespace trimmed. Whenever an attempt of the raw read
  (any of the five, on a handle that was open or that the attempt opened) reads such a line,
  the raw read returns that number at once; a line without "kg" or with a rejected field
  gives "no reading" rather than an error: nothing is returned for it, no exception leaves
  the raw read, the next attempt follows (after a reconnect when \<^verbatim>\<open>float()\<close> raised), and
  the result is "no reading" when no attempt is left. So a good line is returned also when up
  to four lines without a weight were read before it (the port opening again where a
  reconnect is made), and a device that sends no weight at all gives "no reading".
\<close>

theorem raw_read_decodes_line:
  "(decode_line pyfloat line = Weight w \<longleftrightarrow>
      contains ''kg'' line \<and> pyfloat (weight_str line) = Some w) \<and>
   (serial (ensure_connected s) = Some h \<and> read_events (dev s) (read_pos (dev s)) = Line raw \<longrightarrow>
      (contains ''kg'' (strip raw) \<and> pyfloat (weight_str (strip raw)) = Some w \<longrightarrow>
         read_loop pyfloat (Suc n) s = (Some w, snd (next_read_event (ensure_connected s)))) \<and>
      (\<not> contains ''kg'' (strip raw) \<longrightarrow>
         read_loop pyfloat (Suc n) s =
           read_loop pyfloat n (snd (next_read_event (ensure_connected s))) \<and>
         read_loop pyfloat (Suc 0) s = (None, snd (next_read_event (ensure_connected s)))) \<and>
      (contains ''kg'' (strip raw) \<and> pyfloat (weight_str (strip raw)) = None \<longrightarrow>
         read_loop pyfloat (Suc n) s =
           read_loop pyfloat n (connect (snd (next_read_event (ensure_connected s)))) \<and>
         read_loop pyfloat (Suc 0) s =
           (None, connect (snd (next_read_event (ensure_connected s)))))) \<and>
   (serial s = Some h \<and> is_open h \<and> j < READ_MAX_ATTEMPTS \<and>
    (\<forall>i<j. \<exists>r. read_events (dev s) (read_pos (dev s) + i) = Line r \<and> \<not> contains ''kg'' (strip r)) \<and>
    read_events (dev s) (read_pos (dev s) + j) = Line raw \<and>
    contains ''kg'' (strip raw) \<and> pyfloat (weight_str (strip raw)) = Some w \<longrightarrow>
      read_weight pyfloat s = (Some w, advance_reads (Suc j) s)) \<and>
   ((\<forall>k. conn_events (dev s) k = Opened) \<and> j < READ_MAX_ATTEMPTS \<and>
    (\<forall>i<j. no_weight pyfloat (read_events (dev s) (read_pos (dev s) + i))) \<and>
    read_events (dev s) (read_pos (dev s) + j) = Line raw \<and>
    contains ''kg'' (strip raw) \<and> pyfloat (weight_str (strip raw)) = Some w \<longrightarrow>
      fst (read_weight pyfloat s) = Some w \<and>
      read_pos (dev (snd (read_weight pyfloat s))) = read_pos (dev s) + Suc j) \<and>
   ((\<forall>k\<ge>read_pos (dev s). no_weight pyfloat (read_events (dev s) k)) \<longrightarrow>
      fst (read_weight pyfloat s) = None)"
proof (intro conjI impI)
  show "decode_line pyfloat line = Weight w \<longleftrightarrow>
      contains ''kg'' line \<and> pyfloat (weight_str line) = Some w"
    by (auto simp: decode_line_def split: option.splits)
next
  assume a: "serial (ensure_connected s) = Some h \<and> read_events (dev s) (read_pos (dev s)) = Line raw"
  note r = read_loop_attempt [of s h raw pyfloat]
  {
    assume "contains ''kg'' (strip raw) \<and> pyfloat (weight_str (strip raw)) = Some w"
    then show "read_loop pyfloat (Suc n) s = (Some w, snd (next_read_event (ensure_connected s)))"
      using a r [of n] by (simp add: decode_line_def)
  }
  {
    assume b: "\<not> contains ''kg'' (strip raw)"
    then show "read_loop pyfloat (Suc n) s =
           read_loop pyfloat n (snd (next_read_event (ensure_connected s)))"
      using a r [of n] by (simp add: decode_line_def)
    show "read_loop pyfloat (Suc 0) s = (None, snd (next_read_event (ensure_connected s)))"
      using a b r [of 0] by (simp add: decode_line_def)
  }
  {
    assume b: "contains ''kg'' (strip raw) \<and> pyfloat (weight_str (strip raw)) = None"
    then show "read_loop pyfloat (Suc n) s =
           read_loop pyfloat n (connect (snd (next_read_event (ensure_connected s))))"
      using a r [of n] by (simp add: decode_line_def)
    show "read_loop pyfloat (Suc 0) s =
           (None, connect (snd (next_read_event (ensure_connected s))))"
      using a b r [of 0] by (simp add: decode_line_def)
  }
next
  assume a: "serial s = Some h \<and> is_open h \<and> j < READ_MAX_ATTEMPTS \<and>
    (\<forall>i<j. \<exists>r. read_events (dev s) (read_pos (dev s) + i) = Line r \<and> \<not> contains ''kg'' (strip r)) \<and>
    read_events (dev s) (read_pos (dev s) + j) = Line raw \<and>
    contains ''kg'' (strip raw) \<and> pyfloat (weight_str (strip raw)) = Some w"
  obtain m where m: "READ_MAX_ATTEMPTS = j + Suc m"
    using a less_imp_Suc_add by (metis add_Suc_right)
  let ?t = "advance_reads j s"
  have skip: "read_loop pyfloat (j + Suc m) s = read_loop pyfloat (Suc m) ?t"
    using a read_loop_skip_no_unit [of s h j pyfloat "Suc m"] by blast
  have t: "serial ?t = Some h" "ensure_connected ?t = ?t"
    "read_events (dev ?t) (read_pos (dev ?t)) = Line raw"
    using a by (simp_all add: advance_reads_def ensure_connected_def)
  have "read_loop pyfloat (Suc m) ?t = (Some w, snd (next_read_event ?t))"
    using read_loop_attempt [of ?t h raw pyfloat m] t a by (simp add: decode_line_def)
  moreover have "snd (next_read_event ?t) = advance_reads (Suc j) s"
    by (simp add: next_read_event_def advance_reads_def)
  ultimately show "read_weight pyfloat s = (Some w, advance_reads (Suc j) s)"
    unfolding read_weight_def m skip by simp
next
  assume a: "(\<forall>k. conn_events (dev s) k = Opened) \<and> j < READ_MAX_ATTEMPTS \<and>
    (\<forall>i<j. no_weight pyfloat (read_events (dev s) (read_pos (dev s) + i))) \<and>
    read_events (dev s) (read_pos (dev s) + j) = Line raw \<and>
    contains ''kg'' (strip raw) \<and> pyfloat (weight_str (strip raw)) = Some w"
  obtain m where m: "READ_MAX_ATTEMPTS = j + Suc m"
    using a less_imp_Suc_add by (metis add_Suc_right)
  have n: "fst (read_loop pyfloat (j + Suc m) s) = Some w \<and>
         read_pos (dev (snd (read_loop pyfloat (j + Suc m) s))) = read_pos (dev s) + Suc j"
    using a by (intro read_loop_after_noise) blast+
  show "fst (read_weight pyfloat s) = Some w"
    and "read_pos (dev (snd (read_weight pyfloat s))) = read_pos (dev s) + Suc j"
    unfolding read_weight_def m using n by blast+
next
  assume "\<forall>k\<ge>read_pos (dev s). no_weight pyfloat (read_events (dev s) k)"
  then show "fst (read_weight pyfloat s) = None"
    unfolding read_weight_def by (intro read_loop_no_weight) simp
qed

text \<open>
  The example of the specification, "ST,GS,+012.34kg", read on the second attempt after a
  timeout, on the second attempt after a line whose field is no number, and by an attempt
  that first has to open the port; and a scale that never sends a number.
\<close>

theorem raw_read_decodes_line_witness:
  "to_double (1234 / 100) = 3473401212609495 / 281474976710656 \<and>
   read_weight float_binary64 (scale_at (talking_device [Line [], Line ''ST,GS,+012.34kg'']))
     = (Some (to_double (1234 / 100)),
        advance_reads 2 (scale_at (talking_device [Line [], Line ''ST,GS,+012.34kg'']))) \<and>
   fst (read_weight float_binary64
          (scale_at (talking_device [Line ''ST,GS,abckg'', Line ''ST,GS,+012.34kg''])))
     = Some (to_double (1234 / 100)) \<and>
   fst (read_loop float_binary64 1
          ((scale_at (talking_device [Line ''ST,GS,+012.34kg'']))\<lparr>serial := None\<rparr>))
     = Some (to_double (1234 / 100)) \<and>
   fst (read_weight float_binary64 (scale_at (steady_device (Line ''ST,GS,abckg'')))) = None"
proof -
  let ?a = "scale_at (talking_device [Line [], Line ''ST,GS,+012.34kg''])"
  let ?b = "scale_at (talking_device [Line ''ST,GS,abckg'', Line ''ST,GS,+012.34kg''])"
  let ?c = "(scale_at (talking_device [Line ''ST,GS,+012.34kg'']))\<lparr>serial := None\<rparr>"
  let ?d = "scale_at (steady_device (Line ''ST,GS,abckg''))"
  let ?h = "\<lparr>hid = 0, is_open = True\<rparr>"
  let ?g = "''ST,GS,+012.34kg''"
  let ?w = "to_double (1234 / 100)"
  have v: "?w = 3473401212609495 / 281474976710656"
    by (simp add: double_defs)
  have good: "contains ''kg'' (strip ?g)" "float_binary64 (weight_str (strip ?g)) = Some ?w"
    by (simp_all add: eval_defs float_binary64_def)
  have bad: "no_weight float_binary64 (Line ''ST,GS,abckg'')"
    by (simp add: eval_defs float_binary64_def no_weight_def)
  have pa: "serial ?a = Some ?h \<and> is_open ?h \<and> 1 < READ_MAX_ATTEMPTS \<and>
      (\<forall>i<1. \<exists>r. read_events (dev ?a) (read_pos (dev ?a) + i) = Line r \<and> \<not> contains ''kg'' (strip r)) \<and>
      read_events (dev ?a) (read_pos (dev ?a) + 1) = Line ?g \<and>
      contains ''kg'' (strip ?g) \<and> float_binary64 (weight_str (strip ?g)) = Some ?w"
    using good by (simp add: eval_defs)
  have pb: "(\<forall>k. conn_events (dev ?b) k = Opened) \<and> 1 < READ_MAX_ATTEMPTS \<and>
      (\<forall>i<1. no_weight float_binary64 (read_events (dev ?b) (read_pos (dev ?b) + i))) \<and>
      read_events (dev ?b) (read_pos (dev ?b) + 1) = Line ?g \<and>
      contains ''kg'' (strip ?g) \<and> float_binary64 (weight_str (strip ?g)) = Some ?w"
    using good bad by (simp add: eval_defs)
  have pc: "serial (ensure_connected ?c) = Some \<lparr>hid = 1, is_open = True\<rparr> \<and>
      read_events (dev ?c) (read_pos (dev ?c)) = Line ?g"
    by (simp add: eval_defs ensure_connected_def)
  have pd: "\<forall>k\<ge>read_pos (dev ?d). no_weight float_binary64 (read_events (dev ?d) k)"
    using bad by (simp add: eval_defs)
  note ta = raw_read_decodes_line [where s = ?a and h = ?h and j = 1 and raw = ?g
      and pyfloat = float_binary64 and w = ?w,
      THEN conjunct2, THEN conjunct2, THEN conjunct1, THEN mp, OF pa]
  note tb = raw_read_decodes_line [where s = ?b and j = 1 and raw = ?g
      and pyfloat = float_binary64 and w = ?w,
      THEN conjunct2, THEN conjunct2, THEN conjunct2, THEN conjunct1, THEN mp, OF pb]
  note tc = raw_read_decodes_line [where s = ?c and h = "\<lparr>hid = 1, is_open = True\<rparr>"
      and n = 0 and raw = ?g
      and pyfloat = float_binary64 and w = ?w,
      THEN conjunct2, THEN conjunct1, THEN mp, OF pc, THEN conjunct1, THEN mp, OF conjI [OF good]]
  note td = raw_read_decodes_line [where s = ?d and pyfloat = float_binary64,
      THEN conjunct2, THEN conjunct2, THEN conjunct2, THEN conjunct2, THEN mp, OF pd]
  show ?thesis
    using v ta tb tc td by (simp add: numeral_2_eq_2 del: read_loop.simps)
qed

text \<open>
  C2 as stated fails: in "ST,GS,1+2kg" the field left after removing the kg suffix and a
  leading plus sign is "1+2", which is no number, yet the raw read returns 12, because
  \<^verbatim>\<open>replace("+", "")\<close> deletes the inner plus sign too.
\<close>

theorem raw_read_inner_plus_counterexample:
  "contains ''kg'' ''ST,GS,1+2kg'' \<and>
   spec_weight_str ''ST,GS,1+2kg'' = ''1+2'' \<and>
   float_binary64 (spec_weight_str ''ST,GS,1+2kg'') = None \<and>
   fst (read_weight float_binary64 (scale_at (steady_device (Line ''ST,GS,1+2kg'')))) = Some 12"
  by (simp add: eval_defs double_defs spec_weight_str_def endswith_def)

text \<open>
  C10. When an attempt on an open handle reads a line that contains "kg" but whose field
  \<^verbatim>\<open>float()\<close> rejects, the exception is caught inside the raw read and \<open>connect\<close> runs before
  the next attempt: the Scale the attempt leaves behind is the one \<open>connect\<close> returns, at
  least one connection attempt has been spent, and the serial handle is a new one when the
  port opens, and gone, with the channel marked failed, when it does not. A good line that
  follows is then read through the new handle.
\<close>

theorem decode_error_reconnects:
  assumes "serial s = Some h" and "is_open h" and "hid h < conn_pos (dev s)"
    and "read_events (dev s) (read_pos (dev s)) = Line raw"
    and "contains ''kg'' (strip raw)" and "pyfloat (weight_str (strip raw)) = None"
  shows "read_loop pyfloat (Suc 0) s = (None, connect (advance_reads (Suc 0) s)) \<and>
         read_loop pyfloat (Suc n) s = read_loop pyfloat n (connect (advance_reads (Suc 0) s)) \<and>
         conn_pos (dev s) < conn_pos (dev (snd (read_loop pyfloat (Suc 0) s))) \<and>
         (conn_events (dev s) (conn_pos (dev s)) = Opened \<longrightarrow>
            snd (read_loop pyfloat (Suc 0) s) =
              s\<lparr>serial := Some \<lparr>hid = conn_pos (dev s), is_open = True\<rparr>, failed := False,
                dev := (dev s)\<lparr>conn_pos := Suc (conn_pos (dev s)),
                                read_pos := Suc (read_pos (dev s))\<rparr>\<rparr> \<and>
            serial (snd (read_loop pyfloat (Suc 0) s)) \<noteq> serial s) \<and>
         ((\<forall>i<MAX_RECONNECT_ATTEMPTS. conn_events (dev s) (conn_pos (dev s) + i) \<noteq> Opened) \<longrightarrow>
            serial (snd (read_loop pyfloat (Suc 0) s)) = None \<and>
            failed (snd (read_loop pyfloat (Suc 0) s))) \<and>
         (conn_events (dev s) (conn_pos (dev s)) = Opened \<and>
          read_events (dev s) (Suc (read_pos (dev s))) = Line raw' \<and>
          contains ''kg'' (strip raw') \<and> pyfloat (weight_str (strip raw')) = Some w \<longrightarrow>
            read_weight pyfloat s =
              (Some w,
               s\<lparr>serial := Some \<lparr>hid = conn_pos (dev s), is_open = True\<rparr>, failed := False,
                 dev := (dev s)\<lparr>conn_pos := Suc (conn_pos (dev s)),
                                 read_pos := Suc (Suc (read_pos (dev s)))\<rparr>\<rparr>))"
proof -
  let ?c = "connect (advance_reads (Suc 0) s)"
  have e: "ensure_connected s = s"
    using assms(1,2) by (simp add: ensure_connected_def)
  have a: "snd (next_read_event s) = advance_reads (Suc 0) s"
    by (simp add: next_read_event_def advance_reads_def)
  have d: "decode_line pyfloat (strip raw) = ValueError"
    using assms(5,6) by (simp add: decode_line_def)
  have step: "read_loop pyfloat (Suc n) s = read_loop pyfloat n ?c" for n
    using read_loop_attempt [of s h raw pyfloat n] assms(1,4) d by (simp add: e a)
  have one: "read_loop pyfloat (Suc 0) s = (None, ?c)"
    unfolding step by simp
  have spent: "conn_pos (dev s) < conn_pos (dev ?c)"
    using connect_conn_pos [of "advance_reads (Suc 0) s"] by (simp add: advance_reads_def)
  have opened: "?c = s\<lparr>serial := Some \<lparr>hid = conn_pos (dev s), is_open = True\<rparr>, failed := False,
                dev := (dev s)\<lparr>conn_pos := Suc (conn_pos (dev s)),
                                read_pos := Suc (read_pos (dev s))\<rparr>\<rparr>"
    if "conn_events (dev s) (conn_pos (dev s)) = Opened"
    using that connect_opens [of "advance_reads (Suc 0) s"] by (simp add: advance_reads_def)
  have new: "serial ?c \<noteq> serial s" if "conn_events (dev s) (conn_pos (dev s)) = Opened"
    using opened [OF that] assms(1,3) by auto
  have closed: "serial ?c = None \<and> failed ?c"
    if "\<forall>i<MAX_RECONNECT_ATTEMPTS. conn_events (dev s) (conn_pos (dev s) + i) \<noteq> Opened"
    unfolding connect_def
    using that by (intro connect_loop_never_opened) (simp add: advance_reads_def)
  have again: "read_weight pyfloat s =
              (Some w,
               s\<lparr>serial := Some \<lparr>hid = conn_pos (dev s), is_open = True\<rparr>, failed := False,
                 dev := (dev s)\<lparr>conn_pos := Suc (conn_pos (dev s)),
                                 read_pos := Suc (Suc (read_pos (dev s)))\<rparr>\<rparr>)"
    if o: "conn_events (dev s) (conn_pos (dev s)) = Opened"
      and r: "read_events (dev s) (Suc (read_pos (dev s))) = Line raw'"
      and g: "contains ''kg'' (strip raw')" "pyfloat (weight_str (strip raw')) = Some w"
  proof -
    let ?h = "\<lparr>hid = conn_pos (dev s), is_open = True\<rparr>"
    have c: "serial ?c = Some ?h" "ensure_connected ?c = ?c"
      "read_events (dev ?c) (read_pos (dev ?c)) = Line raw'"
      using r by (simp_all add: opened [OF o] ensure_connected_def)
    have "read_loop pyfloat (Suc 3) ?c = (Some w, snd (next_read_event ?c))"
      using read_loop_attempt [of ?c ?h raw' pyfloat 3] c g by (simp add: decode_line_def)
    then have "read_loop pyfloat (Suc (Suc 3)) s = (Some w, snd (next_read_event ?c))"
      unfolding step .
    moreover have "snd (next_read_event ?c) =
               s\<lparr>serial := Some \<lparr>hid = conn_pos (dev s), is_open = True\<rparr>, failed := False,
                 dev := (dev s)\<lparr>conn_pos := Suc (conn_pos (dev s)),
                                 read_pos := Suc (Suc (read_pos (dev s)))\<rparr>\<rparr>"
      by (simp add: opened [OF o] next_read_event_def)
    moreover have "READ_MAX_ATTEMPTS = Suc (Suc 3)"
      by (simp add: READ_MAX_ATTEMPTS_def)
    ultimately show ?thesis
      unfolding read_weight_def by (simp only:)
  qed
  have left: "snd (read_loop pyfloat (Suc 0) s) = ?c"
    unfolding one by simp
  show ?thesis
  proof (intro conjI impI)
    show "read_loop pyfloat (Suc 0) s = (None, ?c)"
      by (rule one)
    show "read_loop pyfloat (Suc n) s = read_loop pyfloat n ?c"
      by (rule step)
    show "conn_pos (dev s) < conn_pos (dev (snd (read_loop pyfloat (Suc 0) s)))"
      unfolding left by (rule spent)
  next
    assume o: "conn_events (dev s) (conn_pos (dev s)) = Opened"
    show "snd (read_loop pyfloat (Suc 0) s) =
              s\<lparr>serial := Some \<lparr>hid = conn_pos (dev s), is_open = True\<rparr>, failed := False,
                dev := (dev s)\<lparr>conn_pos := Suc (conn_pos (dev s)),
                                read_pos := Suc (read_pos (dev s))\<rparr>\<rparr>"
      unfolding left by (rule opened [OF o])
    show "serial (snd (read_loop pyfloat (Suc 0) s)) \<noteq> serial s"
      unfolding left by (rule new [OF o])
  next
    assume "\<forall>i<MAX_RECONNECT_ATTEMPTS. conn_events (dev s) (conn_pos (dev s) + i) \<noteq> Opened"
    from closed [OF this]
    show "serial (snd (read_loop pyfloat (Suc 0) s)) = None"
      and "failed (snd (read_loop pyfloat (Suc 0) s))"
      unfolding left by blast+
  next
    assume "conn_events (dev s) (conn_pos (dev s)) = Opened \<and>
          read_events (dev s) (Suc (read_pos (dev s))) = Line raw' \<and>
          contains ''kg'' (strip raw') \<and> pyfloat (weight_str (strip raw')) = Some w"
    then show "read_weight pyfloat s =
              (Some w,
               s\<lparr>serial := Some \<lparr>hid = conn_pos (dev s), is_open = True\<rparr>, failed := False,
                 dev := (dev s)\<lparr>conn_pos := Suc (conn_pos (dev s)),
                                 read_pos := Suc (Suc (read_pos (dev s)))\<rparr>\<rparr>)"
      using again by blast
  qed
qed

text \<open>
  The line "ST,GS,abckg" on the handle opened first: after one attempt the channel has the
  handle opened second; followed by "ST,GS,+012.34kg", the raw read returns 12.34 through
  it; where the port cannot be opened again, the bad line alone leaves the channel failed.
\<close>

theorem decode_error_reconnects_witness:
  "serial (scale_at (talking_device [Line ''ST,GS,abckg'', Line ''ST,GS,+012.34kg'']))
     = Some \<lparr>hid = 0, is_open = True\<rparr> \<and>
   read_loop float_binary64 1 (scale_at (talking_device [Line ''ST,GS,abckg'', Line ''ST,GS,+012.34kg'']))
     = (None, connect (advance_reads (Suc 0)
          (scale_at (talking_device [Line ''ST,GS,abckg'', Line ''ST,GS,+012.34kg''])))) \<and>
   serial (snd (read_loop float_binary64 1
          (scale_at (talking_device [Line ''ST,GS,abckg'', Line ''ST,GS,+012.34kg'']))))
     = Some \<lparr>hid = 1, is_open = True\<rparr> \<and>
   fst (read_weight float_binary64
          (scale_at (talking_device [Line ''ST,GS,abckg'', Line ''ST,GS,+012.34kg''])))
     = Some (to_double (1234 / 100)) \<and>
   serial (snd (read_weight float_binary64
          (scale_at (talking_device [Line ''ST,GS,abckg'', Line ''ST,GS,+012.34kg'']))))
     = Some \<lparr>hid = 1, is_open = True\<rparr> \<and>
   failed (snd (read_loop float_binary64 1
          (scale_at (scripted_device [Opened] [Line ''ST,GS,abckg'']))))"
proof -
  let ?s = "scale_at (talking_device [Line ''ST,GS,abckg'', Line ''ST,GS,+012.34kg''])"
  let ?t = "scale_at (scripted_device [Opened] [Line ''ST,GS,abckg''])"
  let ?h = "\<lparr>hid = 0, is_open = True\<rparr>"
  have s: "serial ?s = Some ?h" "is_open ?h" "hid ?h < conn_pos (dev ?s)"
    "read_events (dev ?s) (read_pos (dev ?s)) = Line ''ST,GS,abckg''"
    by (simp_all add: eval_defs)
  have t: "serial ?t = Some ?h" "hid ?h < conn_pos (dev ?t)"
    "read_events (dev ?t) (read_pos (dev ?t)) = Line ''ST,GS,abckg''"
    by (simp_all add: eval_defs)
  have bad: "contains ''kg'' (strip ''ST,GS,abckg'')"
    "float_binary64 (weight_str (strip ''ST,GS,abckg'')) = None"
    by (simp_all add: eval_defs float_binary64_def)
  have good: "contains ''kg'' (strip ''ST,GS,+012.34kg'') \<and>
      float_binary64 (weight_str (strip ''ST,GS,+012.34kg'')) = Some (to_double (1234 / 100))"
    by (simp add: eval_defs float_binary64_def)
  have o: "conn_events (dev ?s) (conn_pos (dev ?s)) = Opened"
    "read_events (dev ?s) (Suc (read_pos (dev ?s))) = Line ''ST,GS,+012.34kg''"
    "conn_pos (dev ?s) = 1"
    by (simp_all add: eval_defs)
  have c: "\<forall>i<MAX_RECONNECT_ATTEMPTS. conn_events (dev ?t) (conn_pos (dev ?t) + i) \<noteq> Opened"
    by (simp add: eval_defs)
  note a = decode_error_reconnects [where s = ?s and h = ?h and raw = "''ST,GS,abckg''"
      and pyfloat = float_binary64 and n = 0
      and raw' = "''ST,GS,+012.34kg''" and w = "to_double (1234 / 100)", OF s(1,2,3,4) bad]
  note b = decode_error_reconnects [where s = ?t and h = ?h and raw = "''ST,GS,abckg''"
      and pyfloat = float_binary64 and n = 0, OF t(1) s(2) t(2,3) bad]
  note a' = a [THEN conjunct2, THEN conjunct2, THEN conjunct2]
  note a4 = a' [THEN conjunct1, THEN mp, OF o(1)]
  note a6 = a' [THEN conjunct2, THEN conjunct2, THEN mp, OF conjI [OF o(1) conjI [OF o(2) good]]]
  note b5 = b [THEN conjunct2, THEN conjunct2, THEN conjunct2, THEN conjunct2, THEN conjunct1,
      THEN mp, OF c]
  show ?thesis
    using a [THEN conjunct1] a4 a6 b5 s(1) o(3) by (simp del: read_loop.simps)
qed

subsection \<open>The validated read\<close>

lemma raw_read_Suc:
  "raw_read pyfloat (Suc j) s = raw_read pyfloat j (snd (read_weight pyfloat s))"
  by (simp add: raw_read_def)

lemma validate_loop_step:
  "validate_loop pyfloat (Suc n) l s =
     (case fst (read_weight pyfloat s) of
        None \<Rightarrow> validate_loop pyfloat n l (snd (read_weight pyfloat s))
      | Some w \<Rightarrow>
          if \<bar>double_sub w l\<bar> \<le> WEIGHT_VALIDATION_THRESHOLD
          then (Some w, (snd (read_weight pyfloat s))\<lparr>last_valid_weight := Some w\<rparr>)
          else validate_loop pyfloat n l (snd (read_weight pyfloat s)))"
  by (simp split: prod.splits option.splits)

lemma validate_loop_reject:
  "\<not> acceptable l (fst (read_weight pyfloat s)) \<Longrightarrow>
   validate_loop pyfloat (Suc n) l s = validate_loop pyfloat n l (snd (read_weight pyfloat s))"
  unfolding validate_loop_step by (simp add: acceptable_def split: option.splits)

lemma after_reads_Suc_right:
  "after_reads pyfloat (Suc k) s = snd (read_weight pyfloat (after_reads pyfloat k s))"
  by (induction k arbitrary: s) simp_all

lemma validate_loop_skip:
  "k \<le> n \<Longrightarrow> (\<And>j. j < k \<Longrightarrow> \<not> acceptable l (raw_read pyfloat j s)) \<Longrightarrow>
   validate_loop pyfloat n l s = validate_loop pyfloat (n - k) l (after_reads pyfloat k s)"
proof (induction k arbitrary: n s)
  case 0
  show ?case by simp
next
  case (Suc k)
  obtain m where n: "n = Suc m" and km: "k \<le> m"
    using Suc.prems(1) by (cases n) auto
  have first: "\<not> acceptable l (fst (read_weight pyfloat s))"
    using Suc.prems(2) [of 0] by (simp add: raw_read_def)
  have rest: "\<And>j. j < k \<Longrightarrow> \<not> acceptable l (raw_read pyfloat j (snd (read_weight pyfloat s)))"
    using Suc.prems(2) raw_read_Suc by (metis Suc_less_eq)
  have "validate_loop pyfloat n l s = validate_loop pyfloat m l (snd (read_weight pyfloat s))"
    unfolding n by (rule validate_loop_reject [OF first])
  also have "\<dots> = validate_loop pyfloat (m - k) l (after_reads pyfloat k (snd (read_weight pyfloat s)))"
    by (rule Suc.IH [OF km rest])
  also have "\<dots> = validate_loop pyfloat (n - Suc k) l (after_reads pyfloat (Suc k) s)"
    by (simp add: n)
  finally show ?case .
qed

lemma validate_loop_result:
  "last_valid_weight s = Some l \<Longrightarrow>
   \<exists>w. fst (validate_loop pyfloat n l s) = Some w \<and> \<bar>double_sub w l\<bar> \<le> WEIGHT_VALIDATION_THRESHOLD \<and>
       last_valid_weight (snd (validate_loop pyfloat n l s)) = Some w"
proof (induction n arbitrary: s)
  case 0
  then show ?case by (simp add: WEIGHT_VALIDATION_THRESHOLD_def double_sub_def to_double_def)
next
  case (Suc n)
  have "last_valid_weight (snd (read_weight pyfloat s)) = Some l"
    using Suc.prems by (simp add: read_weight_baseline)
  from Suc.IH [OF this] show ?case
    unfolding validate_loop_step by (auto split: option.splits)
qed

lemma validate_loop_port:
  "port (snd (validate_loop pyfloat n l s)) = port s"
proof (induction n arbitrary: s)
  case 0
  show ?case by simp
next
  case (Suc n)
  show ?case
    unfolding validate_loop_step by (simp add: Suc read_weight_port split: option.splits)
qed

lemma get_validated_weight_port:
  "port (snd (get_validated_weight pyfloat s)) = port s"
  by (auto simp: get_validated_weight_def validate_loop_port read_weight_port
      split: option.splits prod.splits
      dest: arg_cong [where f = "\<lambda>r. port (snd r)"])

lemma steady_raw_read:
  assumes "serial s = Some h" and "is_open h" and "\<And>n. read_events (dev s) n = Line raw"
    and "decode_line pyfloat (strip raw) = Weight w"
  shows "raw_read pyfloat j s = Some w"
  using assms(1,2,3)
proof (induction j arbitrary: s)
  case 0
  show ?case
    using read_loop_first_line [of s h raw pyfloat 4] 0 assms(4)
    by (simp add: raw_read_def read_weight_def READ_MAX_ATTEMPTS_def eval_nat_numeral)
next
  case (Suc j)
  have r: "read_weight pyfloat s = (Some w, snd (next_read_event s))"
    using read_loop_first_line [of s h raw pyfloat 4] Suc.prems assms(4)
    by (simp add: read_weight_def READ_MAX_ATTEMPTS_def eval_nat_numeral)
  have "raw_read pyfloat j (snd (next_read_event s)) = Some w"
    using Suc.prems by (intro Suc.IH) (simp_all add: next_read_event_def)
  then show ?case
    by (simp add: raw_read_Suc r)
qed

text \<open>
  C5. With a baseline \<open>l\<close>, let the raw reads before number \<open>k\<close> (\<open>k < 10\<close>) all be missing or
  out of band and let raw read \<open>k\<close> give \<open>w\<close>. If \<open>abs(w - l) <= 0.5\<close> as the code computes it
  (the float difference, rounded to double), the validated read returns \<open>w\<close> after exactly
  \<open>k + 1\<close> raw reads and stores it as the baseline. Otherwise \<open>w\<close> is neither returned nor
  stored, and the call goes on as the retry loop with the attempts that are left of the 10.
\<close>

theorem validated_read_accepts_iff_within_threshold:
  assumes "last_valid_weight s = Some l" and "k < MAX_VALIDATION_RETRIES"
    and "\<forall>j<k. \<not> acceptable l (raw_read pyfloat j s)"
    and "raw_read pyfloat k s = Some w"
  shows "(\<bar>double_sub w l\<bar> \<le> WEIGHT_VALIDATION_THRESHOLD \<longrightarrow>
            get_validated_weight pyfloat s =
              (Some w, (after_reads pyfloat (Suc k) s)\<lparr>last_valid_weight := Some w\<rparr>)) \<and>
         (\<not> \<bar>double_sub w l\<bar> \<le> WEIGHT_VALIDATION_THRESHOLD \<longrightarrow>
            get_validated_weight pyfloat s =
              validate_loop pyfloat (MAX_VALIDATION_RETRIES - Suc k) l (after_reads pyfloat (Suc k) s) \<and>
            fst (get_validated_weight pyfloat s) \<noteq> Some w \<and>
            last_valid_weight (snd (get_validated_weight pyfloat s)) \<noteq> Some w)"
proof -
  let ?s = "after_reads pyfloat k s"
  let ?s' = "after_reads pyfloat (Suc k) s"
  obtain m where m: "MAX_VALIDATION_RETRIES - k = Suc m" and m': "MAX_VALIDATION_RETRIES - Suc k = m"
    using assms(2) by (cases "MAX_VALIDATION_RETRIES - k") auto
  have "validate_loop pyfloat MAX_VALIDATION_RETRIES l s = validate_loop pyfloat (Suc m) l ?s"
    using validate_loop_skip [of k MAX_VALIDATION_RETRIES l pyfloat s] assms(2,3) by (simp add: m)
  then have g: "get_validated_weight pyfloat s = validate_loop pyfloat (Suc m) l ?s"
    using assms(1) by (simp add: get_validated_weight_def)
  have r: "fst (read_weight pyfloat ?s) = Some w"
    using assms(4) by (simp add: raw_read_def)
  have a: "snd (read_weight pyfloat ?s) = ?s'"
    by (simp only: after_reads_Suc_right)
  have base: "last_valid_weight ?s' = Some l"
    using assms(1) after_reads_baseline by metis
  have step: "validate_loop pyfloat (Suc m) l ?s =
      (if \<bar>double_sub w l\<bar> \<le> WEIGHT_VALIDATION_THRESHOLD
       then (Some w, ?s'\<lparr>last_valid_weight := Some w\<rparr>)
       else validate_loop pyfloat m l ?s')"
    unfolding validate_loop_step r a by simp
  show ?thesis
  proof (cases "\<bar>double_sub w l\<bar> \<le> WEIGHT_VALIDATION_THRESHOLD")
    case True
    then show ?thesis
      unfolding g step by simp
  next
    case False
    obtain w' where "fst (validate_loop pyfloat m l ?s') = Some w'"
      and "\<bar>double_sub w' l\<bar> \<le> WEIGHT_VALIDATION_THRESHOLD"
      and "last_valid_weight (snd (validate_loop pyfloat m l ?s')) = Some w'"
      using validate_loop_result [OF base] by blast
    then show ?thesis
      unfolding g step m' using False by auto
  qed
qed

text \<open>
  Baseline 10.0: a reading of 10.3 is accepted and stored, a reading of 11.0 is not. At the
  threshold the rounding decides, as in Python: with baseline 0.3 the reading 0.80 is
  accepted, although the two doubles differ by more than 0.5, because their float difference
  is 0.5; with baseline 0.6 the reading 1.10 is rejected, its float difference being the
  double next above 0.5.
\<close>

theorem validated_read_accepts_iff_within_threshold_witness:
  "fst (get_validated_weight float_binary64
         ((scale_at (steady_device (Line ''ST,GS,+010.30kg'')))\<lparr>last_valid_weight := Some 10\<rparr>))
     = Some (to_double (103 / 10)) \<and>
   last_valid_weight (snd (get_validated_weight float_binary64
         ((scale_at (steady_device (Line ''ST,GS,+010.30kg'')))\<lparr>last_valid_weight := Some 10\<rparr>)))
     = Some (to_double (103 / 10)) \<and>
   fst (get_validated_weight float_binary64
         ((scale_at (steady_device (Line ''ST,GS,+011.00kg'')))\<lparr>last_valid_weight := Some 10\<rparr>))
     \<noteq> Some 11 \<and>
   1 / 2 < to_double (8 / 10) - to_double (3 / 10) \<and>
   fst (get_validated_weight float_binary64
         ((scale_at (steady_device (Line ''ST,GS,+0.80kg'')))
            \<lparr>last_valid_weight := Some (to_double (3 / 10))\<rparr>))
     = Some (to_double (8 / 10)) \<and>
   double_sub (to_double (11 / 10)) (to_double (6 / 10)) = 1 / 2 + 1 / 2 ^ 53 \<and>
   fst (get_validated_weight float_binary64
         ((scale_at (steady_device (Line ''ST,GS,+1.10kg'')))
            \<lparr>last_valid_weight := Some (to_double (6 / 10))\<rparr>))
     \<noteq> Some (to_double (11 / 10))"
proof -
  let ?h = "\<lparr>hid = 0, is_open = True\<rparr>"
  let ?a = "(scale_at (steady_device (Line ''ST,GS,+010.30kg'')))\<lparr>last_valid_weight := Some 10\<rparr>"
  let ?b = "(scale_at (steady_device (Line ''ST,GS,+011.00kg'')))\<lparr>last_valid_weight := Some 10\<rparr>"
  let ?c = "(scale_at (steady_device (Line ''ST,GS,+0.80kg'')))
              \<lparr>last_valid_weight := Some (to_double (3 / 10))\<rparr>"
  let ?d = "(scale_at (steady_device (Line ''ST,GS,+1.10kg'')))
              \<lparr>last_valid_weight := Some (to_double (6 / 10))\<rparr>"
  have da: "decode_line float_binary64 (strip ''ST,GS,+010.30kg'') = Weight (to_double (103 / 10))"
    and db: "decode_line float_binary64 (strip ''ST,GS,+011.00kg'') = Weight 11"
    and dc: "decode_line float_binary64 (strip ''ST,GS,+0.80kg'') = Weight (to_double (8 / 10))"
    and dd: "decode_line float_binary64 (strip ''ST,GS,+1.10kg'') = Weight (to_double (11 / 10))"
    by (simp_all add: eval_defs double_defs)
  have ra: "raw_read float_binary64 0 ?a = Some (to_double (103 / 10))"
    by (rule steady_raw_read [where h = ?h and raw = "''ST,GS,+010.30kg''", OF _ _ _ da])
      (simp_all add: eval_defs)
  have rb: "raw_read float_binary64 0 ?b = Some 11"
    by (rule steady_raw_read [where h = ?h and raw = "''ST,GS,+011.00kg''", OF _ _ _ db])
      (simp_all add: eval_defs)
  have rc: "raw_read float_binary64 0 ?c = Some (to_double (8 / 10))"
    by (rule steady_raw_read [where h = ?h and raw = "''ST,GS,+0.80kg''", OF _ _ _ dc])
      (simp_all add: eval_defs)
  have rd: "raw_read float_binary64 0 ?d = Some (to_double (11 / 10))"
    by (rule steady_raw_read [where h = ?h and raw = "''ST,GS,+1.10kg''", OF _ _ _ dd])
      (simp_all add: eval_defs)
  have k: "0 < MAX_VALIDATION_RETRIES"
    by (simp add: MAX_VALIDATION_RETRIES_def)
  have none: "\<forall>j<0::nat. \<not> acceptable l (raw_read float_binary64 j s)" for l s
    by simp
  have la: "last_valid_weight ?a = Some 10" and lb: "last_valid_weight ?b = Some 10"
    and lc: "last_valid_weight ?c = Some (to_double (3 / 10))"
    and ld: "last_valid_weight ?d = Some (to_double (6 / 10))"
    by simp_all
  have ta: "\<bar>double_sub (to_double (103 / 10)) 10\<bar> \<le> WEIGHT_VALIDATION_THRESHOLD"
    and tb: "\<not> \<bar>double_sub 11 10\<bar> \<le> WEIGHT_VALIDATION_THRESHOLD"
    and tc: "\<bar>double_sub (to_double (8 / 10)) (to_double (3 / 10))\<bar> \<le> WEIGHT_VALIDATION_THRESHOLD"
    and td: "\<not> \<bar>double_sub (to_double (11 / 10)) (to_double (6 / 10))\<bar> \<le> WEIGHT_VALIDATION_THRESHOLD"
    and exact: "1 / 2 < to_double (8 / 10) - to_double (3 / 10)"
    and next_up: "double_sub (to_double (11 / 10)) (to_double (6 / 10)) = 1 / 2 + 1 / 2 ^ 53"
    by (simp_all add: double_defs WEIGHT_VALIDATION_THRESHOLD_def)
  have "get_validated_weight float_binary64 ?a =
          (Some (to_double (103 / 10)),
           (after_reads float_binary64 (Suc 0) ?a)\<lparr>last_valid_weight := Some (to_double (103 / 10))\<rparr>)"
    using validated_read_accepts_iff_within_threshold [OF la k none ra] ta by blast
  moreover have "fst (get_validated_weight float_binary64 ?b) \<noteq> Some 11"
    using validated_read_accepts_iff_within_threshold [OF lb k none rb] tb by blast
  moreover have "get_validated_weight float_binary64 ?c =
          (Some (to_double (8 / 10)),
           (after_reads float_binary64 (Suc 0) ?c)\<lparr>last_valid_weight := Some (to_double (8 / 10))\<rparr>)"
    using validated_read_accepts_iff_within_threshold [OF lc k none rc] tc by blast
  moreover have "fst (get_validated_weight float_binary64 ?d) \<noteq> Some (to_double (11 / 10))"
    using validated_read_accepts_iff_within_threshold [OF ld k none rd] td by blast
  ultimately show ?thesis
    using exact next_up by (simp del: after_reads.simps)
qed

text \<open>
  C6. With a baseline \<open>l\<close>, when none of the 10 raw reads is acceptable, the validated read
  returns \<open>l\<close>, not "no reading", and the stored \<open>last_valid_weight\<close> is what it was.
\<close>

theorem validated_read_falls_back_to_baseline:
  assumes "last_valid_weight s = Some l"
    and "\<forall>j<MAX_VALIDATION_RETRIES. \<not> acceptable l (raw_read pyfloat j s)"
  shows "get_validated_weight pyfloat s = (Some l, after_reads pyfloat MAX_VALIDATION_RETRIES s) \<and>
         last_valid_weight (snd (get_validated_weight pyfloat s)) = last_valid_weight s"
proof -
  have "validate_loop pyfloat MAX_VALIDATION_RETRIES l s =
        validate_loop pyfloat 0 l (after_reads pyfloat MAX_VALIDATION_RETRIES s)"
    using validate_loop_skip [of MAX_VALIDATION_RETRIES MAX_VALIDATION_RETRIES l pyfloat s] assms(2)
    by simp
  then show ?thesis
    using assms(1) by (simp add: get_validated_weight_def after_reads_baseline)
qed

text \<open>Baseline 10.0 and a scale that only ever says 11.0: the result is 10.0.\<close>

theorem validated_read_falls_back_to_baseline_witness:
  "fst (get_validated_weight float_decimal
         ((scale_at (steady_device (Line ''ST,GS,+011.00kg'')))\<lparr>last_valid_weight := Some 10\<rparr>))
     = Some 10 \<and>
   last_valid_weight (snd (get_validated_weight float_decimal
         ((scale_at (steady_device (Line ''ST,GS,+011.00kg'')))\<lparr>last_valid_weight := Some 10\<rparr>)))
     = Some 10"
proof -
  let ?s = "(scale_at (steady_device (Line ''ST,GS,+011.00kg'')))\<lparr>last_valid_weight := Some 10\<rparr>"
  have d: "decode_line float_decimal (strip ''ST,GS,+011.00kg'') = Weight 11"
    by (simp add: eval_defs)
  have r: "\<And>j. raw_read float_decimal j ?s = Some 11"
    by (rule steady_raw_read [where h = "\<lparr>hid = 0, is_open = True\<rparr>" and raw = "''ST,GS,+011.00kg''", OF _ _ _ d])
      (simp_all add: eval_defs)
  have h: "\<forall>j<MAX_VALIDATION_RETRIES. \<not> acceptable 10 (raw_read float_decimal j ?s)"
    by (simp add: r acceptable_def WEIGHT_VALIDATION_THRESHOLD_def double_defs)
  have b: "last_valid_weight ?s = Some 10"
    by simp
  show ?thesis
    using validated_read_falls_back_to_baseline [OF b h] by (simp add: after_reads_baseline)
qed

text \<open>
  C8. Without a baseline, whatever the first successful raw read returns is returned by the
  validated read and stored as the baseline; no bound on its size is involved.
\<close>

theorem first_read_accepted_unconditionally:
  assumes "last_valid_weight s = None" and "fst (read_weight pyfloat s) = Some w"
  shows "get_validated_weight pyfloat s =
           (Some w, (snd (read_weight pyfloat s))\<lparr>last_valid_weight := Some w\<rparr>)"
  using assms by (auto simp: get_validated_weight_def split: prod.splits)

theorem first_read_accepted_unconditionally_witness:
  "last_valid_weight (scale_at (steady_device (Line ''ST,GS,+98765.4kg''))) = None \<and>
   fst (get_validated_weight float_decimal (scale_at (steady_device (Line ''ST,GS,+98765.4kg''))))
     = Some (987654 / 10) \<and>
   last_valid_weight
     (snd (get_validated_weight float_decimal (scale_at (steady_device (Line ''ST,GS,+98765.4kg'')))))
     = Some (987654 / 10)"
proof -
  let ?s = "scale_at (steady_device (Line ''ST,GS,+98765.4kg''))"
  have b: "last_valid_weight ?s = None"
    by (simp add: eval_defs)
  have r: "fst (read_weight float_decimal ?s) = Some (987654 / 10)"
    by (simp add: eval_defs)
  show ?thesis
    using first_read_accepted_unconditionally [OF b r] b by simp
qed

subsection \<open>The next slot\<close>

lemma is_slot_iff: "is_slot t \<longleftrightarrow> t mod 600000000 = 0"
proof -
  have m: "(t div 60000000) mod 60 mod 10 = (t div 60000000) mod 10"
    by (simp add: mod_mod_cancel)
  have "t mod 600000000 = 60000000 * ((t div 60000000) mod 10) + t mod 60000000"
    using zmod_zmult2_eq [of 10 t 60000000] by simp
  moreover have "0 \<le> t mod 60000000" and "0 \<le> (t div 60000000) mod 10"
    by simp_all
  ultimately show ?thesis
    unfolding is_slot_def dt_minute_def MICROS_PER_MINUTE_def m by auto
qed

lemma get_next_slot_eq: "get_next_slot now = (now div 600000000 + 1) * 600000000"
proof -
  define q where "q = now div 60000000"
  define r where "r = now mod 60000000"
  have now: "now = q * 60000000 + r"
    unfolding q_def r_def by simp
  have a: "(now + 10 * 60000000) mod 60000000 = r"
    unfolding r_def using mod_mult_self2 [of now 60000000 10] by simp
  have m: "q mod 60 mod 10 = q mod 10"
    by (simp add: mod_mod_cancel)
  have d: "now div 600000000 = q div 10"
    unfolding q_def using zdiv_zmult2_eq [of 10 now 60000000] by simp
  have q: "q = 10 * (q div 10) + q mod 10"
    by simp
  have "get_next_slot now = now + 10 * 60000000 - r - (q mod 10) * 60000000"
    unfolding get_next_slot_def replace_second_microsecond_0_def timedelta_minutes_def
      dt_minute_def MICROS_PER_MINUTE_def a q_def [symmetric] m by simp
  also have "\<dots> = (q - q mod 10 + 10) * 60000000"
    unfolding now by (simp add: algebra_simps)
  also have "q - q mod 10 = 10 * (q div 10)"
    using q by linarith
  finally show ?thesis
    unfolding d by (simp add: algebra_simps)
qed

text \<open>
  C7. For every time \<open>now\<close>, \<open>get_next_slot now\<close> is later than \<open>now\<close>, has seconds and
  microseconds zero and a minute that is a multiple of 10, and no time with these properties
  lies between; from 10:03:27 it is 10:10:00 and from 10:10:00 it is 10:20:00, on any day.
\<close>

theorem get_next_slot_is_least_later_slot:
  "now < get_next_slot now \<and> is_slot (get_next_slot now) \<and>
   (\<forall>t. now < t \<and> is_slot t \<longrightarrow> get_next_slot now \<le> t) \<and>
   get_next_slot (at_time day 10 3 27 0) = at_time day 10 10 0 0 \<and>
   get_next_slot (at_time day 10 10 0 0) = at_time day 10 20 0 0"
proof (intro conjI allI impI)
  have "now mod 600000000 < 600000000"
    by simp
  moreover have "now = (now div 600000000) * 600000000 + now mod 600000000"
    by simp
  ultimately show "now < get_next_slot now"
    unfolding get_next_slot_eq by (simp add: algebra_simps)
  show "is_slot (get_next_slot now)"
    unfolding is_slot_iff get_next_slot_eq by simp
next
  fix t
  assume t: "now < t \<and> is_slot t"
  then have tm: "t = (t div 600000000) * 600000000"
    unfolding is_slot_iff by (simp add: mod_eq_0_iff_dvd)
  have "now div 600000000 \<le> t div 600000000"
    using t by (simp add: zdiv_mono1)
  moreover have "now div 600000000 \<noteq> t div 600000000"
  proof
    assume e: "now div 600000000 = t div 600000000"
    have "0 \<le> now mod 600000000" by simp
    moreover have "now = (now div 600000000) * 600000000 + now mod 600000000" by simp
    ultimately have "t \<le> now" using tm e by linarith
    then show False using t by simp
  qed
  ultimately have "now div 600000000 + 1 \<le> t div 600000000"
    by linarith
  then have "(now div 600000000 + 1) * 600000000 \<le> (t div 600000000) * 600000000"
    by simp
  then show "get_next_slot now \<le> t"
    unfolding get_next_slot_eq using tm by linarith
next
  have "at_time day 10 3 27 0 div 600000000 = day * 144 + 60"
    unfolding at_time_def by (simp add: algebra_simps)
  then show "get_next_slot (at_time day 10 3 27 0) = at_time day 10 10 0 0"
    unfolding get_next_slot_eq by (simp add: at_time_def algebra_simps)
  have "at_time day 10 10 0 0 div 600000000 = day * 144 + 61"
    unfolding at_time_def by (simp add: algebra_simps)
  then show "get_next_slot (at_time day 10 10 0 0) = at_time day 10 20 0 0"
    unfolding get_next_slot_eq by (simp add: at_time_def algebra_simps)
qed

text \<open>From 10:03:27 the slot 10:20:00 is a later slot too, and the result, 10:10:00, is not after it.\<close>

theorem get_next_slot_is_least_later_slot_witness:
  "at_time 0 10 3 27 0 < at_time 0 10 20 0 0 \<and> is_slot (at_time 0 10 20 0 0) \<and>
   get_next_slot (at_time 0 10 3 27 0) \<le> at_time 0 10 20 0 0 \<and>
   get_next_slot (at_time 0 10 3 27 0) = at_time 0 10 10 0 0"
proof -
  have a: "at_time 0 10 3 27 0 < at_time 0 10 20 0 0 \<and> is_slot (at_time 0 10 20 0 0)"
    by (simp add: at_time_def is_slot_iff)
  show ?thesis
    using a get_next_slot_is_least_later_slot [of "at_time 0 10 3 27 0" 0] by blast
qed

subsection \<open>The upload\<close>

lemma upload_both_pushed:
  assumes "length weights > 3"
    and "push_events fb (push_pos fb)" and "push_events fb (Suc (push_pos fb))"
  shows "upload_to_firebase rs t weights fb =
     fb\<lparr>nodes := ((nodes fb)(fst rs := nodes fb (fst rs) @ [data_304 t weights]))
                  (snd rs := ((nodes fb)(fst rs := nodes fb (fst rs) @ [data_304 t weights])) (snd rs)
                               @ [data_303 t weights]),
        push_pos := Suc (Suc (push_pos fb))\<rparr>"
  using assms by (simp add: upload_to_firebase_def numeral_3_eq_3 push_def)

text \<open>
  C1. The code does not do what the claim says. With four weights 1, 2, 3, 4 and every push
  succeeding, the first record pushed holds the first three slots, and the second record
  holds 3, the value of slot 3 (line 190 reads \<^verbatim>\<open>weights[2]\<close> under the guard
  \<^verbatim>\<open>len(weights) > 3\<close>), where the claim has 4, the value of slot 4, which is uploaded
  nowhere.
\<close>

theorem upload_second_record_repeats_third_slot:
  "[Some 1, Some 2, Some 3, Some (4 :: real)] ! 3 = Some 4 \<and>
   nodes (upload_to_firebase (''weights/12644'', ''weights/12644'') 0
            [Some 1, Some 2, Some 3, Some 4] open_store) ''weights/12644''
     = [[(Timestamp, Iso 0), (WeightKey 1, Num (Some 1)), (WeightKey 2, Num (Some 2)),
         (WeightKey 3, Num (Some 3))],
        [(Timestamp, Iso 0), (WeightKey 1, Num (Some 3))]]"
  by (simp add: upload_to_firebase_def numeral_3_eq_3 push_def open_store_def data_304_def
      data_303_def enumerate_eq_zip upt_rec)

text \<open>
  C9. Whenever the set-up returns, both references are the path weights/12644; so for a
  record with more than three slots whose pushes succeed, the two dicts are appended, one
  after the other, to that one node, and no other node changes.
\<close>

theorem both_references_same_node:
  assumes "setup_firebase_with_retry init_ok = Some (r304, r303)"
  shows "r304 = ''weights/12644'' \<and> r303 = ''weights/12644'' \<and>
         (length weights > 3 \<and> push_events fb (push_pos fb) \<and> push_events fb (Suc (push_pos fb)) \<longrightarrow>
            nodes (upload_to_firebase (r304, r303) t weights fb) =
              (nodes fb)(''weights/12644'' :=
                 nodes fb ''weights/12644'' @ [data_304 t weights, data_303 t weights]))"
proof -
  have r: "r304 = ''weights/12644'' \<and> r303 = ''weights/12644''"
    using assms
    by (auto simp: setup_firebase_with_retry_def numeral_3_eq_3 split: if_splits)
  show ?thesis
    using r by (auto simp: upload_both_pushed)
qed

theorem both_references_same_node_witness:
  "setup_firebase_with_retry (\<lambda>n. n = 1) = Some (''weights/12644'', ''weights/12644'') \<and>
   nodes (upload_to_firebase (''weights/12644'', ''weights/12644'') 0
            [Some 1, Some 2, Some 3, Some 4] open_store) ''weights/12644''
     = [data_304 0 [Some 1, Some 2, Some 3, Some 4], data_303 0 [Some 1, Some 2, Some 3, Some 4]] \<and>
   nodes (upload_to_firebase (''weights/12644'', ''weights/12644'') 0
            [Some 1, Some 2, Some 3, Some 4] open_store) ''weights/303'' = []"
proof -
  have s: "setup_firebase_with_retry (\<lambda>n. n = 1) = Some (''weights/12644'', ''weights/12644'')"
    by (simp add: setup_firebase_with_retry_def numeral_3_eq_3)
  show ?thesis
    using s both_references_same_node [OF s, where weights = "[Some 1, Some 2, Some 3, Some 4]"
        and fb = open_store and t = 0]
    by (simp add: open_store_def)
qed

subsection \<open>One poll of all scales\<close>

lemma poll_scale_cases:
  "poll_scale pyfloat i sc lws ws =
     (case fst (get_validated_weight pyfloat sc) of
        Some w \<Rightarrow> (snd (get_validated_weight pyfloat sc), lws[i := Some w], ws @ [Some w])
      | None \<Rightarrow> ((snd (get_validated_weight pyfloat sc))\<lparr>failed := True\<rparr>, lws, ws @ [lws ! i]))"
  by (simp add: poll_scale_def split: prod.splits option.splits)

lemma poll_scale_shape:
  assumes "poll_scale pyfloat i sc lws ws = (sc', lws', ws')" and "i < length lws"
  shows "length lws' = length lws" and "ws' = ws @ [lws' ! i]"
    and "\<And>j. j \<noteq> i \<Longrightarrow> lws' ! j = lws ! j"
    and "lws' ! i = (case fst (get_validated_weight pyfloat sc) of Some w \<Rightarrow> Some w | None \<Rightarrow> lws ! i)"
    and "sc' = (case fst (get_validated_weight pyfloat sc) of
                  Some w \<Rightarrow> snd (get_validated_weight pyfloat sc)
                | None \<Rightarrow> (snd (get_validated_weight pyfloat sc))\<lparr>failed := True\<rparr>)"
  using assms unfolding poll_scale_cases by (auto split: option.splits)

lemma poll_scales_shape:
  "poll_scales pyfloat i scs lws ws = (scs', lws', ws') \<Longrightarrow> i + length scs \<le> length lws \<Longrightarrow>
   length scs' = length scs \<and> length lws' = length lws \<and>
   ws' = ws @ take (length scs) (drop i lws') \<and>
   (\<forall>j. j < i \<or> i + length scs \<le> j \<longrightarrow> lws' ! j = lws ! j) \<and>
   (\<forall>j<length scs.
      lws' ! (i + j) = (case fst (get_validated_weight pyfloat (scs ! j)) of
                          Some w \<Rightarrow> Some w | None \<Rightarrow> lws ! (i + j)) \<and>
      scs' ! j = (case fst (get_validated_weight pyfloat (scs ! j)) of
                    Some w \<Rightarrow> snd (get_validated_weight pyfloat (scs ! j))
                  | None \<Rightarrow> (snd (get_validated_weight pyfloat (scs ! j)))\<lparr>failed := True\<rparr>))"
proof (induction scs arbitrary: i lws ws scs' lws' ws')
  case Nil
  then show ?case by simp
next
  case (Cons sc rest)
  obtain sc1 lws1 ws1 where p: "poll_scale pyfloat i sc lws ws = (sc1, lws1, ws1)"
    by (cases "poll_scale pyfloat i sc lws ws") auto
  obtain rest2 lws2 ws2 where q: "poll_scales pyfloat (Suc i) rest lws1 ws1 = (rest2, lws2, ws2)"
    by (cases "poll_scales pyfloat (Suc i) rest lws1 ws1") auto
  have res: "scs' = sc1 # rest2" "lws' = lws2" "ws' = ws2"
    using Cons.prems(1) p q by simp_all
  have i: "i < length lws"
    using Cons.prems(2) by simp
  note s = poll_scale_shape [OF p i]
  have bound: "Suc i + length rest \<le> length lws1"
    using Cons.prems(2) s(1) by simp
  note ih = Cons.IH [OF q bound]
  have len: "length lws2 = length lws" "length rest2 = length rest"
    using ih s(1) by simp_all
  have at_i: "lws2 ! i = lws1 ! i"
    using ih by simp
  have ws: "ws2 = ws @ take (Suc (length rest)) (drop i lws2)"
  proof -
    have "ws2 = (ws @ [lws1 ! i]) @ take (length rest) (drop (Suc i) lws2)"
      using ih s(2) by simp
    moreover have "drop i lws2 = lws2 ! i # drop (Suc i) lws2"
      using i len by (simp add: Cons_nth_drop_Suc)
    ultimately show ?thesis by (simp add: at_i)
  qed
  have outside: "\<forall>j. j < i \<or> i + length (sc # rest) \<le> j \<longrightarrow> lws2 ! j = lws ! j"
  proof (intro allI impI)
    fix j assume j: "j < i \<or> i + length (sc # rest) \<le> j"
    then have "lws2 ! j = lws1 ! j" using ih by auto
    moreover have "lws1 ! j = lws ! j" using j s(3) [of j] by auto
    ultimately show "lws2 ! j = lws ! j" by simp
  qed
  have inside: "\<forall>j<length (sc # rest).
      lws2 ! (i + j) = (case fst (get_validated_weight pyfloat ((sc # rest) ! j)) of
                          Some w \<Rightarrow> Some w | None \<Rightarrow> lws ! (i + j)) \<and>
      (sc1 # rest2) ! j = (case fst (get_validated_weight pyfloat ((sc # rest) ! j)) of
                    Some w \<Rightarrow> snd (get_validated_weight pyfloat ((sc # rest) ! j))
                  | None \<Rightarrow> (snd (get_validated_weight pyfloat ((sc # rest) ! j)))\<lparr>failed := True\<rparr>)"
  proof (intro allI impI)
    fix j assume j: "j < length (sc # rest)"
    show "lws2 ! (i + j) = (case fst (get_validated_weight pyfloat ((sc # rest) ! j)) of
                          Some w \<Rightarrow> Some w | None \<Rightarrow> lws ! (i + j)) \<and>
      (sc1 # rest2) ! j = (case fst (get_validated_weight pyfloat ((sc # rest) ! j)) of
                    Some w \<Rightarrow> snd (get_validated_weight pyfloat ((sc # rest) ! j))
                  | None \<Rightarrow> (snd (get_validated_weight pyfloat ((sc # rest) ! j)))\<lparr>failed := True\<rparr>)"
    proof (cases j)
      case 0
      show ?thesis unfolding 0 using at_i s(4) s(5) by (simp split: option.splits)
    next
      case (Suc m)
      then have m: "m < length rest" using j by simp
      have "lws1 ! (Suc i + m) = lws ! (Suc i + m)"
        using s(3) [of "Suc i + m"] by simp
      then show ?thesis unfolding Suc using ih m by (simp split: option.splits)
    qed
  qed
  show ?case
    unfolding res using len ws outside inside by simp
qed

lemma tick_shape:
  assumes "length (last_weights st) = length (scales st)"
  shows "length (scales (tick pyfloat env st)) = length (scales st)"
    and "length (last_weights (tick pyfloat env st)) = length (scales st)"
    and "handed (tick pyfloat env st) =
           handed st @ [(replace_second_microsecond_0 (tick_now env), last_weights (tick pyfloat env st))]"
    and "\<And>i. i < length (scales st) \<Longrightarrow>
           last_weights (tick pyfloat env st) ! i =
             (case fst (get_validated_weight pyfloat (scales st ! i)) of
                Some w \<Rightarrow> Some w | None \<Rightarrow> last_weights st ! i)"
    and "\<And>i. i < length (scales st) \<Longrightarrow>
           scales (tick pyfloat env st) ! i =
             (case fst (get_validated_weight pyfloat (scales st ! i)) of
                Some w \<Rightarrow> snd (get_validated_weight pyfloat (scales st ! i))
              | None \<Rightarrow> (snd (get_validated_weight pyfloat (scales st ! i)))\<lparr>failed := True\<rparr>)"
proof -
  obtain scs lws ws where p: "poll_scales pyfloat 0 (scales st) (last_weights st) [] = (scs, lws, ws)"
    by (cases "poll_scales pyfloat 0 (scales st) (last_weights st) []") auto
  have b: "0 + length (scales st) \<le> length (last_weights st)"
    using assms by simp
  note s = poll_scales_shape [OF p b]
  have t: "scales (tick pyfloat env st) = scs" "last_weights (tick pyfloat env st) = lws"
    "handed (tick pyfloat env st) = handed st @ [(replace_second_microsecond_0 (tick_now env), ws)]"
    by (simp_all add: tick_def p Let_def)
  have ws: "ws = lws"
    using s assms by simp
  show "length (scales (tick pyfloat env st)) = length (scales st)"
    and "length (last_weights (tick pyfloat env st)) = length (scales st)"
    and "handed (tick pyfloat env st) =
           handed st @ [(replace_second_microsecond_0 (tick_now env), last_weights (tick pyfloat env st))]"
    using s assms by (simp_all add: t ws)
  show "\<And>i. i < length (scales st) \<Longrightarrow>
           last_weights (tick pyfloat env st) ! i =
             (case fst (get_validated_weight pyfloat (scales st ! i)) of
                Some w \<Rightarrow> Some w | None \<Rightarrow> last_weights st ! i)"
    using s by (simp add: t cong: option.case_cong)
  show "\<And>i. i < length (scales st) \<Longrightarrow>
           scales (tick pyfloat env st) ! i =
             (case fst (get_validated_weight pyfloat (scales st ! i)) of
                Some w \<Rightarrow> snd (get_validated_weight pyfloat (scales st ! i))
              | None \<Rightarrow> (snd (get_validated_weight pyfloat (scales st ! i)))\<lparr>failed := True\<rparr>)"
    using s by (simp add: t)
qed

lemmas main_defs =
  main_init_def SCALE_PORTS_def every_port_def tick_def poll_scale_def get_validated_weight_def
  Let_def

text \<open>
  C3 (as amended). When the validated read of a channel returns a value, the orchestrator
  stores it in the record and in \<open>last_weights\<close> and leaves the Scale object, its
  \<open>failed\<close> flag included, exactly as the validated read left it: it does not clear the flag.
\<close>

theorem successful_read_keeps_failed_flag:
  assumes "length (last_weights st) = length (scales st)" and "i < length (scales st)"
    and "fst (get_validated_weight pyfloat (scales st ! i)) = Some w"
  shows "scales (tick pyfloat env st) ! i = snd (get_validated_weight pyfloat (scales st ! i)) \<and>
         failed (scales (tick pyfloat env st) ! i)
           = failed (snd (get_validated_weight pyfloat (scales st ! i))) \<and>
         last_weights (tick pyfloat env st) ! i = Some w \<and>
         snd (last (handed (tick pyfloat env st))) ! i = Some w"
  using tick_shape(4,5) [OF assms(1,2), of pyfloat env] assms(3)
  by (simp add: tick_shape(3) [OF assms(1)])

text \<open>A scale that connects and answers at once: the flag was false and stays false.\<close>

theorem successful_read_keeps_failed_flag_witness:
  "fst (get_validated_weight float_decimal
         (scales (main_init SCALE_PORTS (every_port (steady_device (Line ''ST,GS,+012.34kg'')))
                    (''weights/12644'', ''weights/12644'') open_store) ! 0))
     = Some (1234 / 100) \<and>
   \<not> failed (scales (tick float_decimal \<lparr>tick_now = at_time 0 10 10 0 0, csv_ok = True\<rparr>
        (main_init SCALE_PORTS (every_port (steady_device (Line ''ST,GS,+012.34kg'')))
           (''weights/12644'', ''weights/12644'') open_store)) ! 0) \<and>
   last_weights (tick float_decimal \<lparr>tick_now = at_time 0 10 10 0 0, csv_ok = True\<rparr>
        (main_init SCALE_PORTS (every_port (steady_device (Line ''ST,GS,+012.34kg'')))
           (''weights/12644'', ''weights/12644'') open_store)) ! 0 = Some (1234 / 100)"
proof -
  let ?st = "main_init SCALE_PORTS (every_port (steady_device (Line ''ST,GS,+012.34kg'')))
               (''weights/12644'', ''weights/12644'') open_store"
  have l: "length (last_weights ?st) = length (scales ?st)" and i: "0 < length (scales ?st)"
    by (simp_all add: main_defs)
  have r: "fst (get_validated_weight float_decimal (scales ?st ! 0)) = Some (1234 / 100)"
    by (simp add: main_defs eval_defs)
  have f: "\<not> failed (snd (get_validated_weight float_decimal (scales ?st ! 0)))"
    by (simp add: main_defs eval_defs)
  show ?thesis
    using successful_read_keeps_failed_flag [OF l i r] r f by simp
qed

text \<open>
  C3 as stated fails. The port opens, the scale is silent during the first tick (five
  timeouts), so the orchestrator sets \<open>failed\<close>; on the second tick the validated read
  returns 12.34 without reconnecting, and \<open>failed\<close> is still true afterwards.
\<close>

theorem failed_flag_survives_success_counterexample:
  "fst (get_validated_weight float_decimal
         (scales (main_loop float_decimal [\<lparr>tick_now = at_time 0 10 10 0 0, csv_ok = True\<rparr>]
            (main_init SCALE_PORTS
               (every_port (scripted_device [Opened]
                  [Line [], Line [], Line [], Line [], Line [], Line ''ST,GS,+012.34kg'']))
               (''weights/12644'', ''weights/12644'') open_store)) ! 0))
     = Some (1234 / 100) \<and>
   failed (scales (main_loop float_decimal
            [\<lparr>tick_now = at_time 0 10 10 0 0, csv_ok = True\<rparr>,
             \<lparr>tick_now = at_time 0 10 20 0 0, csv_ok = True\<rparr>]
            (main_init SCALE_PORTS
               (every_port (scripted_device [Opened]
                  [Line [], Line [], Line [], Line [], Line [], Line ''ST,GS,+012.34kg'']))
               (''weights/12644'', ''weights/12644'') open_store)) ! 0)"
  by (simp add: main_defs eval_defs)

subsection \<open>The records of a run\<close>

lemma main_loop_snoc:
  "main_loop pyfloat (envs @ [env]) st = tick pyfloat env (main_loop pyfloat envs st)"
  by (induction envs arbitrary: st) simp_all

lemma main_loop_append:
  "main_loop pyfloat (xs @ ys) st = main_loop pyfloat ys (main_loop pyfloat xs st)"
  by (induction xs arbitrary: st) simp_all

lemma main_loop_lengths:
  "length (scales (main_loop pyfloat envs (main_init ports world rs fb))) = length ports \<and>
   length (last_weights (main_loop pyfloat envs (main_init ports world rs fb))) = length ports \<and>
   length (handed (main_loop pyfloat envs (main_init ports world rs fb))) = length envs"
proof (induction envs rule: rev_induct)
  case Nil
  show ?case by (simp add: main_init_def)
next
  case (snoc env envs)
  let ?st = "main_loop pyfloat envs (main_init ports world rs fb)"
  have l: "length (last_weights ?st) = length (scales ?st)"
    using snoc.IH by simp
  note t = tick_shape [OF l, where pyfloat = pyfloat and env = env]
  show ?case
    unfolding main_loop_snoc using snoc.IH t(1) t(2) by (simp add: t(3))
qed

lemma main_loop_ports:
  "i < length ports \<Longrightarrow>
   port (scales (main_loop pyfloat envs (main_init ports world rs fb)) ! i) = ports ! i"
proof (induction envs rule: rev_induct)
  case Nil
  then show ?case by (simp add: main_init_def new_scale_def connect_frame)
next
  case (snoc env envs)
  let ?st = "main_loop pyfloat envs (main_init ports world rs fb)"
  have len: "length (scales ?st) = length ports" "length (last_weights ?st) = length (scales ?st)"
    using main_loop_lengths [of pyfloat envs ports world rs fb] by simp_all
  have i: "i < length (scales ?st)"
    using snoc.prems len by simp
  have "port (scales (tick pyfloat env ?st) ! i) = port (scales ?st ! i)"
    unfolding tick_shape(5) [OF len(2) i]
    by (simp add: get_validated_weight_port split: option.splits)
  then show ?case
    unfolding main_loop_snoc using snoc by simp
qed

lemma tick_keeps_values:
  assumes "length (last_weights st) = length (scales st)" and "i < length (scales st)"
    and "last_weights (tick pyfloat env st) ! i = None"
  shows "last_weights st ! i = None"
  using assms tick_shape(4) [OF assms(1,2), of pyfloat env] by (auto split: option.splits)

lemma main_loop_history:
  assumes "st = main_loop pyfloat envs (main_init ports world rs fb)"
    and "k < length envs" and "i < length ports"
  shows "length (snd (handed st ! k)) = length ports"
    and "last_weights st ! i = None \<Longrightarrow> snd (handed st ! k) ! i = None"
    and "snd (handed st ! k) ! i = None \<Longrightarrow> j \<le> k \<Longrightarrow> snd (handed st ! j) ! i = None"
  using assms
proof (induction envs arbitrary: st k j rule: rev_induct)
  case Nil
  { case 1 then show ?case by simp }
  { case 2 then show ?case by simp }
  { case 3 then show ?case by simp }
next
  case (snoc env envs)
  let ?st = "main_loop pyfloat envs (main_init ports world rs fb)"
  have len: "length (scales ?st) = length ports" "length (last_weights ?st) = length ports"
    "length (handed ?st) = length envs"
    using main_loop_lengths [of pyfloat envs ports world rs fb] by simp_all
  have l: "length (last_weights ?st) = length (scales ?st)"
    using len by simp
  have st: "\<And>s. s = main_loop pyfloat (envs @ [env]) (main_init ports world rs fb) \<Longrightarrow> s = tick pyfloat env ?st"
    by (simp add: main_loop_snoc)
  note t = tick_shape [OF l, where pyfloat = pyfloat and env = env]
  have old: "\<And>m. m < length envs \<Longrightarrow> handed (tick pyfloat env ?st) ! m = handed ?st ! m"
    unfolding t(3) using len(3) by (simp add: nth_append)
  have new: "snd (handed (tick pyfloat env ?st) ! length envs) = last_weights (tick pyfloat env ?st)"
    unfolding t(3) using len(3) by (simp add: nth_append)
  have keep: "\<And>i. i < length ports \<Longrightarrow> last_weights (tick pyfloat env ?st) ! i = None
      \<Longrightarrow> last_weights ?st ! i = None"
    using tick_keeps_values [OF l] len(1) by metis
  { case 1
    have s: "st = tick pyfloat env ?st" using st 1(1) by blast
    show ?case
    proof (cases "k < length envs")
      case True
      show ?thesis
        unfolding s old [OF True] using snoc.IH(1) [OF refl True 1(3)] .
    next
      case False
      then have "k = length envs" using 1(2) by simp
      then show ?thesis unfolding s using new t(2) len(1) by simp
    qed }
  { case 2
    have s: "st = tick pyfloat env ?st" using st 2(2) by blast
    have z: "last_weights (tick pyfloat env ?st) ! i = None" using 2(1) s by simp
    show ?case
    proof (cases "k < length envs")
      case True
      show ?thesis
        unfolding s old [OF True] using snoc.IH(2) [OF keep [OF 2(4) z] refl True 2(4)] .
    next
      case False
      then have "k = length envs" using 2(3) by simp
      then show ?thesis unfolding s using new z by simp
    qed }
  { case 3
    have s: "st = tick pyfloat env ?st" using st 3(3) by blast
    show ?case
    proof (cases "k < length envs")
      case True
      then have j: "j < length envs" using 3(2) by simp
      have "snd (handed ?st ! k) ! i = None" using 3(1) unfolding s old [OF True] .
      from snoc.IH(3) [OF this 3(2) refl True 3(5)]
      show ?thesis unfolding s old [OF j] .
    next
      case False
      then have k: "k = length envs" using 3(4) by simp
      have z: "last_weights (tick pyfloat env ?st) ! i = None"
        using 3(1) unfolding s k new .
      show ?thesis
      proof (cases "j < length envs")
        case True
        show ?thesis
          unfolding s old [OF True] using snoc.IH(2) [OF keep [OF 3(5) z] refl True 3(5)] .
      next
        case False
        then have "j = length envs" using 3(2) k by simp
        then show ?thesis unfolding s using new z by simp
      qed
    qed }
qed

lemma handed_extends:
  "length (last_weights st) = length (scales st) \<Longrightarrow>
   take (length (handed st)) (handed (main_loop pyfloat envs st)) = handed st"
proof (induction envs arbitrary: st)
  case Nil
  show ?case by simp
next
  case (Cons env envs)
  note t = tick_shape [OF Cons.prems, where pyfloat = pyfloat and env = env]
  have l: "length (last_weights (tick pyfloat env st)) = length (scales (tick pyfloat env st))"
    using t(1) t(2) by simp
  have "take (length (handed st)) (handed (main_loop pyfloat envs (tick pyfloat env st)))
        = take (length (handed st))
            (take (length (handed (tick pyfloat env st)))
               (handed (main_loop pyfloat envs (tick pyfloat env st))))"
    by (simp add: t(3) min_def)
  also have "\<dots> = take (length (handed st)) (handed (tick pyfloat env st))"
    unfolding Cons.IH [OF l] ..
  also have "\<dots> = handed st"
    by (simp add: t(3))
  finally show ?case by simp
qed

lemma record_of_tick:
  assumes "st = main_loop pyfloat envs (main_init ports world rs fb)" and "k < length envs"
    and "before = main_loop pyfloat (take k envs) (main_init ports world rs fb)"
  shows "snd (handed st ! k) = last_weights (tick pyfloat (envs ! k) before)"
proof -
  let ?after = "tick pyfloat (envs ! k) before"
  have lb: "length (last_weights before) = length (scales before)" "length (handed before) = k"
    using main_loop_lengths [of pyfloat "take k envs" ports world rs fb] assms(2,3) by simp_all
  note t = tick_shape [OF lb(1), where pyfloat = pyfloat and env = "envs ! k"]
  have la: "length (last_weights ?after) = length (scales ?after)"
    using t(1) t(2) by simp
  have h: "length (handed ?after) = Suc k"
    using lb(2) by (simp add: t(3))
  have "envs = (take k envs @ [envs ! k]) @ drop (Suc k) envs"
    using assms(2) by (simp add: take_Suc_conv_app_nth [symmetric])
  then have "st = main_loop pyfloat (drop (Suc k) envs) ?after"
    unfolding assms(1,3) using main_loop_append main_loop_snoc by metis
  then have "take (Suc k) (handed st) = handed ?after"
    using handed_extends [OF la, of pyfloat "drop (Suc k) envs"] h by simp
  then have "handed st ! k = handed ?after ! k"
    by (metis lessI nth_take)
  also have "\<dots> = (replace_second_microsecond_0 (tick_now (envs ! k)), last_weights ?after)"
    using lb(2) by (simp add: t(3) nth_append)
  finally show ?thesis by simp
qed

text \<open>
  C4 (as amended). In every run, the record of tick \<open>k\<close> has one weight slot for each
  configured port; slot \<open>i\<close> belongs to the Scale of port \<open>i\<close>: it is the value its validated
  read returned on that tick, or else the last value remembered for it; and a slot is None
  only if the same slot was None in every earlier record of the run, that is, only while that
  channel has never produced a reading, on whichever tick that is.
\<close>

theorem records_have_one_slot_per_channel:
  assumes "st = main_loop pyfloat envs (main_init ports world rs fb)"
    and "k < length envs" and "i < length ports"
    and "before = main_loop pyfloat (take k envs) (main_init ports world rs fb)"
  shows "length (snd (handed st ! k)) = length ports \<and>
         port (scales before ! i) = ports ! i \<and>
         snd (handed st ! k) ! i =
           (case fst (get_validated_weight pyfloat (scales before ! i)) of
              Some w \<Rightarrow> Some w | None \<Rightarrow> last_weights before ! i) \<and>
         (snd (handed st ! k) ! i = None \<longrightarrow> (\<forall>j\<le>k. snd (handed st ! j) ! i = None))"
proof -
  have lb: "length (last_weights before) = length (scales before)" "length (scales before) = length ports"
    using main_loop_lengths [of pyfloat "take k envs" ports world rs fb] assms(4) by simp_all
  have i: "i < length (scales before)"
    using assms(3) lb by simp
  have "snd (handed st ! k) ! i = last_weights (tick pyfloat (envs ! k) before) ! i"
    using record_of_tick [OF assms(1,2,4)] by simp
  then have slot: "snd (handed st ! k) ! i =
           (case fst (get_validated_weight pyfloat (scales before ! i)) of
              Some w \<Rightarrow> Some w | None \<Rightarrow> last_weights before ! i)"
    using tick_shape(4) [OF lb(1) i, of pyfloat "envs ! k"] by simp
  have p: "port (scales before ! i) = ports ! i"
    unfolding assms(4) by (rule main_loop_ports [OF assms(3)])
  show ?thesis
    using main_loop_history(1) [OF assms(1,2,3)] main_loop_history(3) [OF assms(1,2,3)] slot p
    by blast
qed

text \<open>The silent-then-talking scale again: the first record has None, the second 12.34.\<close>

theorem records_have_one_slot_per_channel_witness:
  "snd (handed (main_loop float_decimal
            [\<lparr>tick_now = at_time 0 10 10 0 0, csv_ok = True\<rparr>,
             \<lparr>tick_now = at_time 0 10 20 0 0, csv_ok = True\<rparr>]
            (main_init SCALE_PORTS
               (every_port (scripted_device [Opened]
                  [Line [], Line [], Line [], Line [], Line [], Line ''ST,GS,+012.34kg'']))
               (''weights/12644'', ''weights/12644'') open_store)) ! 0) = [None] \<and>
   snd (handed (main_loop float_decimal
            [\<lparr>tick_now = at_time 0 10 10 0 0, csv_ok = True\<rparr>,
             \<lparr>tick_now = at_time 0 10 20 0 0, csv_ok = True\<rparr>]
            (main_init SCALE_PORTS
               (every_port (scripted_device [Opened]
                  [Line [], Line [], Line [], Line [], Line [], Line ''ST,GS,+012.34kg'']))
               (''weights/12644'', ''weights/12644'') open_store)) ! 1) = [Some (1234 / 100)]"
  using records_have_one_slot_per_channel
    [OF refl, where k = 0 and i = 0 and pyfloat = float_decimal
      and envs = "[\<lparr>tick_now = at_time 0 10 10 0 0, csv_ok = True\<rparr>,
                   \<lparr>tick_now = at_time 0 10 20 0 0, csv_ok = True\<rparr>]"
      and ports = SCALE_PORTS
      and world = "every_port (scripted_device [Opened]
                  [Line [], Line [], Line [], Line [], Line [], Line ''ST,GS,+012.34kg''])"
      and rs = "(''weights/12644'', ''weights/12644'')" and fb = open_store, OF _ _ refl]
  by (simp add: main_defs eval_defs)

text \<open>
  C4 as stated fails on "only on the very first tick": with no device node behind the port,
  the reboot command is run after the first tick, the loop goes on, and the record of the
  second tick has a None slot as well.
\<close>

theorem none_slot_on_second_tick_counterexample:
  "map snd (handed (main_loop float_decimal
            [\<lparr>tick_now = at_time 0 10 10 0 0, csv_ok = True\<rparr>,
             \<lparr>tick_now = at_time 0 10 20 0 0, csv_ok = True\<rparr>]
            (main_init SCALE_PORTS (every_port (scripted_device [] []))
               (''weights/12644'', ''weights/12644'') open_store)))
     = [[None], [None]] \<and>
   reboots (main_loop float_decimal
            [\<lparr>tick_now = at_time 0 10 10 0 0, csv_ok = True\<rparr>]
            (main_init SCALE_PORTS (every_port (scripted_device [] []))
               (''weights/12644'', ''weights/12644'') open_store)) = 1"
  by (simp add: main_defs eval_defs)

end
